theory Spec2Isabelle
  imports Complex_Main "HOL-Library.AList"
begin

section \<open>Inline chat edit strategies (inlineChatStrategies.ts)\<close>

subsection \<open>Hunks and the hunk store\<close>

text \<open>
  \<open>HunkState\<close> is imported from \<open>./inlineChatSession\<close>; this file reads the members
  \<open>Pending\<close> and \<open>Accepted\<close>. The third member is the state a discarded hunk is in.
\<close>

datatype HunkState = Pending | Accepted | Discarded

text \<open>The line span of a \<open>Range\<close>: \<open>startLineNumber\<close> and \<open>endLineNumber\<close>.\<close>

record range =
  startLineNumber :: int
  endLineNumber :: int

text \<open>
  A \<open>HunkInformation\<close>: \<open>getState()\<close> and \<open>getRangesN()[0]\<close>, the range the hunk
  covers in the current document (the only element of \<open>getRangesN()\<close> that distance and
  position are computed from).
\<close>

record hunk =
  getState :: HunkState
  rangeN :: range

subsection \<open>Distance of a hunk from the zone line\<close>

text \<open>
  The expression of \<open>_updateDiffZones\<close> (lines 347-349) and of \<open>renderHunks\<close>
  (lines 623-625 and 649-651):
  \<^verbatim>\<open>zoneLineNumber <= r.startLineNumber ? r.startLineNumber - zoneLineNumber
                                         : zoneLineNumber - r.endLineNumber\<close>
  Line numbers are integers far below \<open>2^53\<close>, where the arithmetic of JavaScript
  numbers is exact.
\<close>

definition hunkDistance :: "int \<Rightarrow> range \<Rightarrow> int" where
  "hunkDistance zoneLineNumber r =
     (if zoneLineNumber \<le> startLineNumber r
      then startLineNumber r - zoneLineNumber
      else zoneLineNumber - endLineNumber r)"

subsection \<open>Hunk state changes\<close>

text \<open>
  Modelled from the spec: \<open>HunkInformation.acceptChanges\<close> and \<open>discardChanges\<close>
  live in \<open>inlineChatSession.ts\<close>, outside \<open>inlineChatStrategies.ts\<close>. The
  spec (4.3): \<open>Pending \<rightarrow> Accepted\<close> and \<open>Pending \<rightarrow> Discarded\<close> are the only
  transitions, nothing leaves \<open>Accepted\<close> or \<open>Discarded\<close>, and hunk ranges are tracked
  by the document as its text changes. A hunk object is identified by its index in
  \<open>hunkData.getInfo()\<close>; \<open>tracked\<close> lists, in store order, the ranges the document
  reports once the text edit of the transition has been made (a hunk beyond the end of
  that list keeps its range).
\<close>

fun retrack :: "range list \<Rightarrow> hunk list \<Rightarrow> hunk list" where
  "retrack (r # rs) (h # hs) = h\<lparr>rangeN := r\<rparr> # retrack rs hs"
| "retrack rs hs = hs"

definition setState :: "HunkState \<Rightarrow> range list \<Rightarrow> nat \<Rightarrow> hunk list \<Rightarrow> hunk list" where
  "setState st tracked i hs =
     (if i < length hs \<and> getState (hs ! i) = Pending
      then retrack tracked (hs[i := (hs ! i)\<lparr>getState := st\<rparr>])
      else hs)"

definition acceptChanges :: "range list \<Rightarrow> nat \<Rightarrow> hunk list \<Rightarrow> hunk list" where
  "acceptChanges = setState Accepted"

definition discardChanges :: "range list \<Rightarrow> nat \<Rightarrow> hunk list \<Rightarrow> hunk list" where
  "discardChanges = setState Discarded"

subsection \<open>Session notifications and the accept/discard thunks\<close>

datatype event = OnDidAccept | OnDidDiscard

text \<open>
  \<open>acceptHunk\<close> and \<open>discardHunk\<close> are the methods of \<open>EditModeStrategy\<close> (lines 82-88)
  until a strategy assigns closures over its nearest hunk to both of them at once.
\<close>

datatype 'a thunks = BaseMethods | NearestThunks 'a

text \<open>
  The session result that is fired when no pending hunk is left (lines 319-323 and
  682-693): accepted if some hunk is in state \<open>Accepted\<close>, discarded otherwise.
\<close>

definition sessionResult :: "hunk list \<Rightarrow> event" where
  "sessionResult hs =
     (if find (\<lambda>h. getState h = Accepted) hs \<noteq> None then OnDidAccept else OnDidDiscard)"

subsection \<open>LivePreviewStrategy\<close>

text \<open>
  The \<open>Data\<close> of \<open>_updateDiffZones\<close>: \<open>position\<close> is the line of
  \<open>modifiedRange.getStartPosition().delta(-1)\<close>; \<open>target\<close> is the hunk that the
  \<open>accept\<close> and \<open>discard\<close> closures are bound to.
\<close>

record Data =
  position :: int
  distance :: int
  target :: nat

record LivePreview =
  lp_hunks :: "hunk list"
  lp_diffZonePool :: nat
  lp_thunks :: "Data option thunks"
  lp_fired :: "event list"

text \<open>Line 312: the pending hunks, each with its index in \<open>getInfo()\<close>.\<close>

definition pendingHunks :: "hunk list \<Rightarrow> (nat \<times> hunk) list" where
  "pendingHunks hs = filter (\<lambda>(i, h). getState h = Pending) (enumerate 0 hs)"

text \<open>The loop of lines 341-366 over the pending hunks.\<close>

fun nearestLoop :: "int \<Rightarrow> (nat \<times> hunk) list \<Rightarrow> Data option \<Rightarrow> Data option" where
  "nearestLoop z [] nearest = nearest"
| "nearestLoop z ((i, h) # rest) nearest =
     (let modifiedRange = rangeN h;
          d = hunkDistance z modifiedRange;
          new = \<lparr>position = startLineNumber modifiedRange - 1, distance = d, target = i\<rparr>
      in nearestLoop z rest
           (case nearest of
              None \<Rightarrow> Some new
            | Some n \<Rightarrow> if distance n > d then Some new else Some n))"

text \<open>
  \<open>_updateDiffZones\<close> (lines 309-381); \<open>z\<close> is \<open>this._zone.position.lineNumber\<close> as
  read by this call. The result is the new state and the returned position.
\<close>

definition updateDiffZones :: "int \<Rightarrow> LivePreview \<Rightarrow> LivePreview \<times> int option" where
  "updateDiffZones z s =
     (let hunks = pendingHunks (lp_hunks s) in
      if length hunks = 0
      then (s\<lparr>lp_fired := lp_fired s @ [sessionResult (lp_hunks s)]\<rparr>, None)
      else
        let nearest = nearestLoop z hunks None in
        (s\<lparr>lp_diffZonePool := max (lp_diffZonePool s) (length hunks),
           lp_thunks := NearestThunks nearest\<rparr>,
         map_option position nearest))"

definition lp_acceptHunk :: "int \<Rightarrow> range list \<Rightarrow> LivePreview \<Rightarrow> LivePreview" where
  "lp_acceptHunk z tracked s =
     (case lp_thunks s of
        BaseMethods \<Rightarrow> s\<lparr>lp_fired := lp_fired s @ [OnDidAccept]\<rparr>
      | NearestThunks None \<Rightarrow> s
      | NearestThunks (Some n) \<Rightarrow>
          fst (updateDiffZones z (s\<lparr>lp_hunks := acceptChanges tracked (target n) (lp_hunks s)\<rparr>)))"

definition lp_discardHunk :: "int \<Rightarrow> range list \<Rightarrow> LivePreview \<Rightarrow> LivePreview" where
  "lp_discardHunk z tracked s =
     (case lp_thunks s of
        BaseMethods \<Rightarrow> s\<lparr>lp_fired := lp_fired s @ [OnDidDiscard]\<rparr>
      | NearestThunks None \<Rightarrow> s
      | NearestThunks (Some n) \<Rightarrow>
          fst (updateDiffZones z (s\<lparr>lp_hunks := discardChanges tracked (target n) (lp_hunks s)\<rparr>)))"

subsection \<open>LiveStrategy\<close>

text \<open>
  A \<open>HunkDisplayData\<close>: \<open>distance\<close> and \<open>position\<close>. Its decorations and view zone
  are editor visuals; its \<open>acceptHunk\<close> and \<open>discardHunk\<close> closures are bound to the
  hunk the entry is stored under in \<open>_hunkDisplayData\<close>, so the key stands for them.
\<close>

record HunkDisplayData =
  hd_distance :: int
  hd_position :: int

record Live =
  lv_hunks :: "hunk list"
  lv_hunkDisplayData :: "(nat \<times> HunkDisplayData) list"
  lv_thunks :: "(nat \<times> HunkDisplayData) thunks"
  lv_fired :: "event list"

text \<open>
  Lines 549-652 for one hunk: its entry of \<open>_hunkDisplayData\<close>, created at the first
  sight of the hunk (whatever its state), left as it is for a hunk that is no longer
  pending (\<open>data.remove()\<close> takes its visuals out of the editor), and otherwise brought
  up to date in place.
\<close>

definition displayDataFor :: "int \<Rightarrow> nat \<Rightarrow> hunk \<Rightarrow> (nat \<times> HunkDisplayData) list
    \<Rightarrow> (nat \<times> HunkDisplayData) list \<times> HunkDisplayData" where
  "displayDataFor z i hunkData m =
     (let r = rangeN hunkData in
      case map_of m i of
        None \<Rightarrow>
          (let data = \<lparr>hd_distance = hunkDistance z r, hd_position = startLineNumber r - 1\<rparr>
           in (AList.update i data m, data))
      | Some data \<Rightarrow>
          if getState hunkData \<noteq> Pending then (m, data)
          else
            let data' = data\<lparr>hd_position := startLineNumber r - 1,
                             hd_distance := hunkDistance z r\<rparr>
            in (AList.update i data' m, data'))"

text \<open>
  The loop of lines 545-657 over \<open>hunkData.getInfo()\<close>, on the pair of
  \<open>_hunkDisplayData\<close> and \<open>widgetData\<close>.
\<close>

fun renderLoop :: "int \<Rightarrow> (nat \<times> hunk) list
    \<Rightarrow> (nat \<times> HunkDisplayData) list \<times> (nat \<times> HunkDisplayData) option
    \<Rightarrow> (nat \<times> HunkDisplayData) list \<times> (nat \<times> HunkDisplayData) option" where
  "renderLoop z [] (m, widgetData) = (m, widgetData)"
| "renderLoop z ((i, hunkData) # rest) (m, widgetData) =
     (let (m', data) = displayDataFor z i hunkData m;
          widgetData' =
            (if getState hunkData = Pending
                \<and> (case widgetData of None \<Rightarrow> True
                    | Some (_, w) \<Rightarrow> hd_distance data < hd_distance w)
             then Some (i, data) else widgetData)
      in renderLoop z rest (m', widgetData'))"

text \<open>
  \<open>keysNow\<close> after the loop (lines 542, 547 and 659): the keys of
  \<open>_hunkDisplayData\<close> at the start of the pass whose hunk the loop has not met.
\<close>

definition keysLeft :: "hunk list \<Rightarrow> (nat \<times> HunkDisplayData) list \<Rightarrow> nat list" where
  "keysLeft hs m = filter (\<lambda>k. k \<notin> set (map fst (enumerate 0 hs))) (map fst m)"

text \<open>
  \<open>renderHunks\<close> (lines 536-697): the loop, the removal of the entries whose hunk is no
  longer in the store (lines 659-665), and the rebinding or the session notification.
\<close>

definition renderHunks :: "int \<Rightarrow> Live \<Rightarrow> Live \<times> (nat \<times> HunkDisplayData) option" where
  "renderHunks z s =
     (let info = enumerate 0 (lv_hunks s);
          keysNow = keysLeft (lv_hunks s) (lv_hunkDisplayData s);
          (m, widgetData) = renderLoop z info (lv_hunkDisplayData s, None);
          m' = fold AList.delete keysNow m;
          s' = s\<lparr>lv_hunkDisplayData := m'\<rparr>
      in case widgetData of
           Some w \<Rightarrow> (s'\<lparr>lv_thunks := NearestThunks w\<rparr>, widgetData)
         | None \<Rightarrow>
             if length m' > 0
             then (s'\<lparr>lv_fired := lv_fired s' @ [sessionResult (lv_hunks s')]\<rparr>, None)
             else (s', None))"

definition lv_acceptHunk :: "int \<Rightarrow> range list \<Rightarrow> Live \<Rightarrow> Live" where
  "lv_acceptHunk z tracked s =
     (case lv_thunks s of
        BaseMethods \<Rightarrow> s\<lparr>lv_fired := lv_fired s @ [OnDidAccept]\<rparr>
      | NearestThunks (i, w) \<Rightarrow>
          fst (renderHunks z (s\<lparr>lv_hunks := acceptChanges tracked i (lv_hunks s)\<rparr>)))"

definition lv_discardHunk :: "int \<Rightarrow> range list \<Rightarrow> Live \<Rightarrow> Live" where
  "lv_discardHunk z tracked s =
     (case lv_thunks s of
        BaseMethods \<Rightarrow> s\<lparr>lv_fired := lv_fired s @ [OnDidDiscard]\<rparr>
      | NearestThunks (i, w) \<Rightarrow>
          fst (renderHunks z (s\<lparr>lv_hunks := discardChanges tracked i (lv_hunks s)\<rparr>)))"

subsection \<open>Sequences of accept and discard actions\<close>

text \<open>
  One user action: which of the two thunks is called, the zone line that the re-render
  it triggers reads, and the ranges the document reports after the hunk's text edit.
\<close>

datatype action = AcceptHunk | DiscardHunk

definition lp_step :: "action \<times> int \<times> range list \<Rightarrow> LivePreview \<Rightarrow> LivePreview" where
  "lp_step x s =
     (case x of (a, z, tracked) \<Rightarrow>
        (case a of AcceptHunk \<Rightarrow> lp_acceptHunk z tracked s
                 | DiscardHunk \<Rightarrow> lp_discardHunk z tracked s))"

fun lp_run :: "LivePreview \<Rightarrow> (action \<times> int \<times> range list) list \<Rightarrow> LivePreview" where
  "lp_run s [] = s"
| "lp_run s (x # rest) = lp_run (lp_step x s) rest"

definition lv_step :: "action \<times> int \<times> range list \<Rightarrow> Live \<Rightarrow> Live" where
  "lv_step x s =
     (case x of (a, z, tracked) \<Rightarrow>
        (case a of AcceptHunk \<Rightarrow> lv_acceptHunk z tracked s
                 | DiscardHunk \<Rightarrow> lv_discardHunk z tracked s))"

fun lv_run :: "Live \<Rightarrow> (action \<times> int \<times> range list) list \<Rightarrow> Live" where
  "lv_run s [] = s"
| "lv_run s (x # rest) = lv_run (lv_step x s) rest"

text \<open>
  Modelled from the spec: \<open>hunkData.pending\<close> (\<open>inlineChatSession.ts\<close>) is the count of
  the hunks in state \<open>Pending\<close> (4.3).
\<close>

definition pending :: "hunk list \<Rightarrow> nat" where
  "pending hs = length (filter (\<lambda>h. getState h = Pending) hs)"

text \<open>
  The first selected pending hunk at minimum distance: hunk \<open>i\<close> is pending, \<open>d\<close> is its
  distance, and every pending hunk is either strictly farther or equally far and not
  earlier in \<open>getInfo()\<close>.
\<close>

definition isNearest :: "int \<Rightarrow> hunk list \<Rightarrow> nat \<Rightarrow> int \<Rightarrow> bool" where
  "isNearest z hs i d \<longleftrightarrow>
     i < length hs \<and> getState (hs ! i) = Pending \<and> d = hunkDistance z (rangeN (hs ! i))
     \<and> (\<forall>j < length hs. getState (hs ! j) = Pending \<longrightarrow>
           d < hunkDistance z (rangeN (hs ! j))
           \<or> (d = hunkDistance z (rangeN (hs ! j)) \<and> i \<le> j))"

text \<open>
  What holds of a LivePreview strategy once \<open>_updateDiffZones\<close> has met a pending hunk:
  the thunks are closures over some hunk, which is pending as long as any hunk is.
\<close>

definition lp_inv :: "LivePreview \<Rightarrow> bool" where
  "lp_inv s \<longleftrightarrow> (\<exists>n. lp_thunks s = NearestThunks (Some n)
      \<and> (0 < pending (lp_hunks s) \<longrightarrow>
            target n < length (lp_hunks s) \<and> getState (lp_hunks s ! target n) = Pending))"

text \<open>The same for a Live strategy, whose store is then not empty.\<close>

definition lv_inv :: "Live \<Rightarrow> bool" where
  "lv_inv s \<longleftrightarrow> lv_hunks s \<noteq> [] \<and> (\<exists>i w. lv_thunks s = NearestThunks (i, w)
      \<and> (0 < pending (lv_hunks s) \<longrightarrow>
            i < length (lv_hunks s) \<and> getState (lv_hunks s ! i) = Pending))"

text \<open>The \<open>Data\<close> that \<open>nearestLoop\<close> builds for hunk \<open>i\<close> (lines 352-363).\<close>

definition mkData :: "int \<Rightarrow> nat \<Rightarrow> hunk \<Rightarrow> Data" where
  "mkData z i h =
     \<lparr>position = startLineNumber (rangeN h) - 1, distance = hunkDistance z (rangeN h),
      target = i\<rparr>"

subsection \<open>The text model and \<open>undoModelUntil\<close>\<close>

text \<open>
  Modelled from the spec: \<open>ITextModel\<close> is declared in \<open>vs/editor/common/model\<close>,
  outside \<open>inlineChatStrategies.ts\<close>. The spec (3, 6): the document carries an alternative-version
  counter, an integer stamped at each undo-distinguishable mutation that identifies an
  undo-distinguishable state, and a single-step undo. An entry of \<open>undoStack\<close> is the
  state one undo step goes back to: its alternative version and its content.
\<close>

record textModel =
  alternativeVersionId :: int
  getValue :: string
  undoStack :: "(int \<times> string) list"

definition canUndo :: "textModel \<Rightarrow> bool" where
  "canUndo model \<longleftrightarrow> undoStack model \<noteq> []"

definition undo :: "textModel \<Rightarrow> textModel" where
  "undo model =
     (case undoStack model of
        [] \<Rightarrow> model
      | (v, content) # rest \<Rightarrow> \<lparr>alternativeVersionId = v, getValue = content, undoStack = rest\<rparr>)"

text \<open>
  \<open>undoModelUntil\<close> (lines 725-729):
  \<^verbatim>\<open>while (targetAltVersion < model.getAlternativeVersionId() && model.canUndo()) {
      await model.undo(); }\<close>
\<close>

function undoModelUntil :: "textModel \<Rightarrow> int \<Rightarrow> textModel" where
  "undoModelUntil model targetAltVersion =
     (if targetAltVersion < alternativeVersionId model \<and> canUndo model
      then undoModelUntil (undo model) targetAltVersion
      else model)"
  by pat_completeness auto
termination
  by (relation "measure (\<lambda>(model, _). length (undoStack model))")
     (auto simp: canUndo_def undo_def split: list.splits)

declare undoModelUntil.simps [simp del]

text \<open>
  The alternative versions of the states that undo can reach, the current one first; in a
  document whose counter only grows as it is edited they descend strictly.
\<close>

definition reachable :: "textModel \<Rightarrow> int list" where
  "reachable model = alternativeVersionId model # map fst (undoStack model)"

definition versionsDescend :: "textModel \<Rightarrow> bool" where
  "versionsDescend model \<longleftrightarrow> sorted_wrt (\<lambda>a b. b < a) (reachable model)"

subsection \<open>Edit operations and the document\<close>

text \<open>
  An \<open>ISingleEditOperation\<close>: the range it replaces, as an offset into the text and a
  length, and its \<open>text\<close>, which may be \<open>null\<close>.
\<close>

record edit =
  e_offset :: nat
  e_length :: nat
  e_text :: "string option"

text \<open>\<open>edit.text ?? ''\<close> (line 105).\<close>

definition textOf :: "edit \<Rightarrow> string" where
  "textOf e = (case e_text e of None \<Rightarrow> [] | Some t \<Rightarrow> t)"

text \<open>
  Modelled from the spec: the document's \<open>mutate(range, text)\<close> (6), the replacement of
  a range of the current document by new text (3). A range that reaches beyond the end
  of the text is cut at the end.
\<close>

definition replaceRange :: "nat \<Rightarrow> nat \<Rightarrow> string \<Rightarrow> string \<Rightarrow> string" where
  "replaceRange off len new doc = take off doc @ new @ drop (off + len) doc"

text \<open>
  Modelled from the spec: \<open>ITextModel.pushEditOperations\<close> with a list of edits is one
  document transaction (4.2) in which the edits are applied in list order (5).
\<close>

definition pushEditOperations :: "edit list \<Rightarrow> string \<Rightarrow> string" where
  "pushEditOperations edits doc =
     fold (\<lambda>e d. replaceRange (e_offset e) (e_length e) (textOf e) d) edits doc"

subsection \<open>Progressive edits\<close>

text \<open>
  \<open>ProgressingEditsOptions\<close> (lines 224-227): \<open>duration\<close>, a finite number of
  milliseconds given by its value, and the cancellation token, here the number of
  sub-edits after which cancellation is requested (\<open>None\<close>: never).
\<close>

record ProgressingEditsOptions =
  duration :: rat
  token :: "nat option"

text \<open>
  A JavaScript number, an IEEE 754 double: a finite double given by its value, an
  infinity (its sign is not kept), or \<open>NaN\<close>.
\<close>

datatype number = Finite rat | Infinity | NaN

text \<open>
  The \<open>/\<close> of JavaScript on doubles. A zero divisor gives \<open>NaN\<close> for a zero dividend
  and an infinity for any other; a zero dividend over a non-zero divisor gives 0; every
  other quotient of finite numbers is rounded to a double. \<open>toDouble\<close> is that
  rounding, a parameter: it gives the double nearest to the exact quotient, which is 0
  when the quotient underflows and an infinity when it overflows.
\<close>

definition jsDivide :: "(rat \<Rightarrow> number) \<Rightarrow> number \<Rightarrow> number \<Rightarrow> number" where
  "jsDivide toDouble a b =
     (case a of
        NaN \<Rightarrow> NaN
      | Infinity \<Rightarrow> (case b of Finite _ \<Rightarrow> Infinity | _ \<Rightarrow> NaN)
      | Finite x \<Rightarrow>
          (case b of
             NaN \<Rightarrow> NaN
           | Infinity \<Rightarrow> Finite 0
           | Finite y \<Rightarrow>
               if y = 0 then (if x = 0 then NaN else Infinity)
               else if x = 0 then Finite 0
               else toDouble (x / y)))"

text \<open>Line 103: \<open>const durationInSec = opts.duration / 1000\<close>.\<close>

definition durationInSec :: "(rat \<Rightarrow> number) \<Rightarrow> ProgressingEditsOptions \<Rightarrow> number" where
  "durationInSec toDouble opts = jsDivide toDouble (Finite (duration opts)) (Finite 1000)"

text \<open>Line 106: \<open>const speed = wordCount / durationInSec\<close>.\<close>

definition wordsPerSec :: "(rat \<Rightarrow> number) \<Rightarrow> ProgressingEditsOptions \<Rightarrow> nat \<Rightarrow> number" where
  "wordsPerSec toDouble opts wordCount =
     jsDivide toDouble (Finite (of_nat wordCount)) (durationInSec toDouble opts)"

text \<open>
  Modelled from the spec: \<open>asProgressiveEdit\<close> is imported from \<open>./utils\<close>; it is the
  EditTimeline of 4.1. It turns the text of an edit into a finite sequence of
  sub-edit texts whose concatenation is the text, each of at least one character. The
  sizes of the sub-edits depend on the rate and on the timer; \<open>ticks\<close> lists how many
  characters each timer tick releases, and what is left after the last tick goes out as
  the final sub-edit. Cancellation aborts the emission.
\<close>

fun timeline :: "nat list \<Rightarrow> string \<Rightarrow> string list" where
  "timeline [] t = [t]"
| "timeline (n # ns) t =
     (if length t \<le> max 1 n then [t]
      else take (max 1 n) t # timeline ns (drop (max 1 n) t))"

definition asProgressiveEdit :: "nat list \<Rightarrow> edit \<Rightarrow> nat option \<Rightarrow> nat \<times> nat \<times> string list" where
  "asProgressiveEdit ticks e tok =
     (e_offset e, e_length e,
      case tok of None \<Rightarrow> timeline ticks (textOf e)
                | Some k \<Rightarrow> take k (timeline ticks (textOf e)))"

text \<open>
  Modelled from the spec: \<open>performAsyncTextEdit\<close> (\<open>./utils\<close>) applies the sub-edits of
  one edit in left-to-right text order (5): the first replaces the range of the edit,
  every later one is inserted where the one before it ended.
\<close>

fun performParts :: "nat \<Rightarrow> nat \<Rightarrow> string list \<Rightarrow> string \<Rightarrow> string" where
  "performParts off len [] doc = doc"
| "performParts off len (p # ps) doc =
     performParts (off + length p) 0 ps (replaceRange off len p doc)"

definition performAsyncTextEdit :: "string \<Rightarrow> nat \<times> nat \<times> string list \<Rightarrow> string" where
  "performAsyncTextEdit doc asyncEdit =
     (case asyncEdit of (off, len, parts) \<Rightarrow> performParts off len parts doc)"

subsection \<open>EditModeStrategy._makeChanges\<close>

text \<open>
  What \<open>_makeChanges\<close> does to its collaborators, in order: the undo stop pushed on the
  editor, the observer calls and the transaction of the immediate path, and the
  progressive edit handed to \<open>performAsyncTextEdit\<close> with the rate it was built with.
\<close>

datatype call =
    PushUndoStop
  | ObsStart
  | ObsStop
  | PushEditOperations "edit list"
  | PerformAsyncTextEdit edit number

record EditModeStrategy =
  editCount :: nat
  textModelN :: string
  calls :: "call list"

text \<open>
  The loop of lines 104-110. \<open>countWords\<close> is imported from \<open>chatWordCounter\<close> and
  is a parameter here, as is the rounding \<open>toDouble\<close> of the two divisions;
  \<open>schedule\<close> holds the timer ticks of each edit in turn.
\<close>

fun asyncEdits :: "(rat \<Rightarrow> number) \<Rightarrow> (string \<Rightarrow> nat) \<Rightarrow> ProgressingEditsOptions \<Rightarrow> edit list \<Rightarrow> nat list list
    \<Rightarrow> EditModeStrategy \<Rightarrow> EditModeStrategy" where
  "asyncEdits toDouble countWords opts [] schedule s = s"
| "asyncEdits toDouble countWords opts (e # edits) schedule s =
     (let wordCount = countWords (textOf e);
          speed = wordsPerSec toDouble opts wordCount;
          asyncEdit = asProgressiveEdit (case schedule of [] \<Rightarrow> [] | ticks # _ \<Rightarrow> ticks) e (token opts)
      in asyncEdits toDouble countWords opts edits (tl schedule)
           (s\<lparr>textModelN := performAsyncTextEdit (textModelN s) asyncEdit,
              calls := calls s @ [PerformAsyncTextEdit e speed]\<rparr>))"

text \<open>The protected method \<open>_makeChanges\<close> (lines 94-121).\<close>

definition protected_makeChanges :: "(rat \<Rightarrow> number) \<Rightarrow> (string \<Rightarrow> nat)
    \<Rightarrow> nat list list \<Rightarrow> edit list
    \<Rightarrow> ProgressingEditsOptions option \<Rightarrow> EditModeStrategy \<Rightarrow> EditModeStrategy" where
  "protected_makeChanges toDouble countWords schedule edits opts s =
     (let s1 = s\<lparr>editCount := editCount s + 1\<rparr>;
          s2 = (if editCount s1 = 1 then s1\<lparr>calls := calls s1 @ [PushUndoStop]\<rparr> else s1)
      in case opts of
           Some options \<Rightarrow> asyncEdits toDouble countWords options edits schedule s2
         | None \<Rightarrow>
             s2\<lparr>textModelN := pushEditOperations edits (textModelN s2),
                calls := calls s2 @ [ObsStart, PushEditOperations edits, ObsStop]\<rparr>)"

text \<open>
  \<open>makeChanges\<close> and \<open>makeProgressiveChanges\<close> of the three strategies (lines 191-197,
  274-282, 497-522) call \<open>_makeChanges\<close> without and with options; the progress
  callbacks they pass refresh visuals only.
\<close>

definition makeChanges :: "edit list \<Rightarrow> EditModeStrategy \<Rightarrow> EditModeStrategy" where
  "makeChanges edits s = protected_makeChanges Finite (\<lambda>_. 0) [] edits None s"

definition makeProgressiveChanges :: "(rat \<Rightarrow> number) \<Rightarrow> (string \<Rightarrow> nat)
    \<Rightarrow> nat list list \<Rightarrow> edit list
    \<Rightarrow> ProgressingEditsOptions \<Rightarrow> EditModeStrategy \<Rightarrow> EditModeStrategy" where
  "makeProgressiveChanges toDouble countWords schedule edits opts s =
     protected_makeChanges toDouble countWords schedule edits (Some opts) s"

text \<open>
  A session's calls of \<open>makeChanges\<close> and \<open>makeProgressiveChanges\<close>, in order: the
  edits, the options if any, and the timer ticks.
\<close>

fun makeChangesRun :: "(rat \<Rightarrow> number) \<Rightarrow> (string \<Rightarrow> nat)
    \<Rightarrow> (edit list \<times> ProgressingEditsOptions option \<times> nat list list) list
    \<Rightarrow> EditModeStrategy \<Rightarrow> EditModeStrategy" where
  "makeChangesRun toDouble countWords [] s = s"
| "makeChangesRun toDouble countWords ((edits, opts, schedule) # rest) s =
     makeChangesRun toDouble countWords rest
       (protected_makeChanges toDouble countWords schedule edits opts s)"

subsection \<open>cancel\<close>

text \<open>
  Modelled from the spec: \<open>hunkData.discardAll()\<close> lives in \<open>inlineChatSession.ts\<close>,
  outside \<open>inlineChatStrategies.ts\<close>; it moves every still-pending hunk to
  \<open>Discarded\<close> (4.3).
\<close>

definition discardAll :: "hunk list \<Rightarrow> hunk list" where
  "discardAll hs = map (\<lambda>h. if getState h = Pending then h\<lparr>getState := Discarded\<rparr> else h) hs"

text \<open>
  \<open>EditModeStrategy.cancel\<close> (lines 78-80), on the hunks of the session. The Preview
  and LivePreview strategies inherit it.
\<close>

definition cancel :: "hunk list \<Rightarrow> hunk list" where
  "cancel hunkData = discardAll hunkData"

definition lp_cancel :: "LivePreview \<Rightarrow> LivePreview" where
  "lp_cancel s = s\<lparr>lp_hunks := cancel (lp_hunks s)\<rparr>"

text \<open>
  \<open>LiveStrategy._resetDiff\<close> (lines 457-467) resets two context keys, clears the status
  and the progressive decorations and takes the visuals of every display entry out of the
  editor; the entries stay in \<open>_hunkDisplayData\<close>. \<open>LiveStrategy.cancel\<close> (lines
  487-490) runs it and then the inherited \<open>cancel\<close>.
\<close>

definition lv_resetDiff :: "Live \<Rightarrow> Live" where
  "lv_resetDiff s = s"

definition lv_cancel :: "Live \<Rightarrow> Live" where
  "lv_cancel s = (let s' = lv_resetDiff s in s'\<lparr>lv_hunks := cancel (lv_hunks s')\<rparr>)"

subsection \<open>PreviewStrategy\<close>

text \<open>What \<open>apply\<close> calls on the editor's model (lines 178-180).\<close>

datatype modelCall = PushStackElement | ReplaceFullModelRange string

text \<open>The untitled document of the last response: \<open>isDisposed()\<close> and \<open>isDirty()\<close>.\<close>

record untitledTextModel =
  isDisposed :: bool
  isDirty :: bool

text \<open>
  The state \<open>PreviewStrategy.apply\<close> works on: the content of the editor's model
  (\<open>this._editor.getModel()\<close>, which may be \<open>null\<close>), the content of the snapshot
  \<open>textModel0\<close>, the hunks, the calls made on the editor's model, and the untitled
  document of the last exchange, if its response is a \<open>ReplyResponse\<close> that has one.
\<close>

record Preview =
  pv_editorModel :: "string option"
  pv_textModel0 :: string
  pv_hunks :: "hunk list"
  pv_modelCalls :: "modelCall list"
  pv_untitled :: "untitledTextModel option"

text \<open>
  Line 173: \<open>getInfo().forEach(item => item.acceptChanges())\<close>. Accepting moves the
  changes of a hunk from \<open>textModelN\<close> into \<open>textModel0\<close> (comment of line 168);
  \<open>movedText\<close> is the content \<open>textModel0\<close> has once the changes of all pending
  hunks are in it, which \<open>inlineChatSession.ts\<close> computes.
\<close>

definition acceptAllInfo :: "string \<Rightarrow> hunk list \<times> string \<Rightarrow> hunk list \<times> string" where
  "acceptAllInfo movedText p =
     (case p of (hs, textModel0) \<Rightarrow>
        (fold (\<lambda>i. acceptChanges [] i) [0..<length hs] hs,
         if find (\<lambda>h. getState h = Pending) hs \<noteq> None then movedText else textModel0))"

text \<open>
  \<open>PreviewStrategy.apply\<close> (lines 165-189). \<open>equalsTextBuffer\<close> is the
  content-equality check of the document (spec, 6).
\<close>

definition pv_apply :: "string \<Rightarrow> Preview \<Rightarrow> Preview" where
  "pv_apply movedText s =
     (let s1 =
        (case pv_editorModel s of
           None \<Rightarrow> s
         | Some textModel \<Rightarrow>
             if textModel = pv_textModel0 s
             then
               let (hs, textModel0) = acceptAllInfo movedText (pv_hunks s, pv_textModel0 s);
                   newText = textModel0
               in s\<lparr>pv_hunks := hs, pv_textModel0 := textModel0,
                    pv_editorModel := Some newText,
                    pv_modelCalls := pv_modelCalls s
                       @ [PushStackElement, ReplaceFullModelRange newText, PushStackElement]\<rparr>
             else s)
      in case pv_untitled s1 of
           None \<Rightarrow> s1
         | Some u \<Rightarrow>
             if \<not> isDisposed u \<and> isDirty u
             then s1\<lparr>pv_untitled := Some (u\<lparr>isDirty := False\<rparr>)\<rparr>
             else s1)"

definition pv_cancel :: "Preview \<Rightarrow> Preview" where
  "pv_cancel s = s\<lparr>pv_hunks := cancel (pv_hunks s)\<rparr>"

section \<open>Theorems\<close>

subsection \<open>C1: the distance of a hunk\<close>

text \<open>
  C1, as the code has it. For a range with \<open>startLineNumber \<le> endLineNumber\<close>: a
  reference line at or above the start gives \<open>start - reference\<close>; a reference line at or
  below the end gives \<open>reference - end\<close>; a reference line strictly inside the hunk
  (after the start, before the end) also gives \<open>reference - end\<close>, which is negative
  there, not 0.
\<close>

theorem hunkDistance_cases:
  assumes "startLineNumber r \<le> endLineNumber r"
  shows "(z \<le> startLineNumber r \<longrightarrow> hunkDistance z r = startLineNumber r - z)
       \<and> (endLineNumber r \<le> z \<longrightarrow> hunkDistance z r = z - endLineNumber r)
       \<and> (startLineNumber r < z \<and> z < endLineNumber r \<longrightarrow>
            hunkDistance z r = z - endLineNumber r \<and> hunkDistance z r < 0)"
  using assms by (auto simp: hunkDistance_def)

theorem hunkDistance_cases_witness:
  "hunkDistance 5 \<lparr>startLineNumber = 10, endLineNumber = 20\<rparr> = 5
   \<and> hunkDistance 25 \<lparr>startLineNumber = 10, endLineNumber = 20\<rparr> = 5
   \<and> hunkDistance 15 \<lparr>startLineNumber = 10, endLineNumber = 20\<rparr> = - 5"
  using hunkDistance_cases [of "\<lparr>startLineNumber = 10, endLineNumber = 20\<rparr>" 5]
        hunkDistance_cases [of "\<lparr>startLineNumber = 10, endLineNumber = 20\<rparr>" 25]
        hunkDistance_cases [of "\<lparr>startLineNumber = 10, endLineNumber = 20\<rparr>" 15]
  by simp

text \<open>
  The claim as stated (distance 0 strictly inside the hunk) fails for the hunk spanning
  lines 10-20 and the reference line 15.
\<close>

theorem hunkDistance_inside_counterexample:
  "(10::int) < 15 \<and> (15::int) < 20
   \<and> hunkDistance 15 \<lparr>startLineNumber = 10, endLineNumber = 20\<rparr> \<noteq> 0"
  by (simp add: hunkDistance_def)


subsection \<open>C2: the nearest pending hunk\<close>

lemma nearestLoop_enum:
  "nearestLoop z (filter (\<lambda>(i, h). getState h = Pending) (enumerate n hs)) acc = Some d \<Longrightarrow>
     (acc = Some d \<and> (\<forall>j<length hs. getState (hs ! j) = Pending \<longrightarrow> distance d \<le> hunkDistance z (rangeN (hs ! j))))
   \<or> (\<exists>k<length hs. getState (hs ! k) = Pending \<and> d = mkData z (n + k) (hs ! k)
        \<and> (\<forall>j<k. getState (hs ! j) = Pending \<longrightarrow> distance d < hunkDistance z (rangeN (hs ! j)))
        \<and> (\<forall>j<length hs. getState (hs ! j) = Pending \<longrightarrow> distance d \<le> hunkDistance z (rangeN (hs ! j)))
        \<and> (\<forall>a. acc = Some a \<longrightarrow> distance d < distance a))"
proof (induction hs arbitrary: n acc)
  case Nil
  then show ?case by simp
next
  case (Cons h hs)
  show ?case
  proof (cases "getState h = Pending")
    case False
    with Cons.prems have "nearestLoop z (filter (\<lambda>(i, h). getState h = Pending) (enumerate (Suc n) hs)) acc = Some d"
      by simp
    from Cons.IH[OF this] False show ?thesis
      apply (elim disjE exE conjE)
       apply (rule disjI1)
       apply (simp add: All_less_Suc2)
      apply (rule disjI2)
      subgoal for k
        apply (rule exI[of _ "Suc k"])
        apply (simp add: All_less_Suc2)
        done
      done
  next
    case True
    let ?new = "mkData z n h"
    let ?acc' = "case acc of None \<Rightarrow> Some ?new | Some a \<Rightarrow> if distance a > hunkDistance z (rangeN h) then Some ?new else Some a"
    from Cons.prems True have "nearestLoop z (filter (\<lambda>(i, h). getState h = Pending) (enumerate (Suc n) hs)) ?acc' = Some d"
      unfolding mkData_def by (simp add: Let_def)
    from Cons.IH[OF this] show ?thesis
    proof (elim disjE exE conjE)
      assume a: "?acc' = Some d"
        and b: "\<forall>j<length hs. getState (hs ! j) = Pending \<longrightarrow> distance d \<le> hunkDistance z (rangeN (hs ! j))"
      show ?thesis
      proof (cases "acc = Some d")
        case True
        with a have "distance d \<le> hunkDistance z (rangeN h)"
          by (auto simp: mkData_def split: if_splits)
        with True b show ?thesis
          by (auto simp: All_less_Suc2)
      next
        case False
        with a have d: "d = mkData z n h" and lt: "\<forall>a. acc = Some a \<longrightarrow> distance d < distance a"
          by (auto simp: mkData_def split: option.splits if_splits)
        have "0 < length (h # hs) \<and> getState ((h # hs) ! 0) = Pending \<and> d = mkData z (n + 0) ((h # hs) ! 0)
          \<and> (\<forall>j<0. getState ((h # hs) ! j) = Pending \<longrightarrow> distance d < hunkDistance z (rangeN ((h # hs) ! j)))
          \<and> (\<forall>j<length (h # hs). getState ((h # hs) ! j) = Pending \<longrightarrow> distance d \<le> hunkDistance z (rangeN ((h # hs) ! j)))
          \<and> (\<forall>a. acc = Some a \<longrightarrow> distance d < distance a)"
          using True d lt b by (auto simp: All_less_Suc2 mkData_def)
        then show ?thesis by blast
      qed
    next
      fix k
      assume k: "k < length hs" "getState (hs ! k) = Pending" "d = mkData z (Suc n + k) (hs ! k)"
        and e: "\<forall>j<k. getState (hs ! j) = Pending \<longrightarrow> distance d < hunkDistance z (rangeN (hs ! j))"
        and b: "\<forall>j<length hs. getState (hs ! j) = Pending \<longrightarrow> distance d \<le> hunkDistance z (rangeN (hs ! j))"
        and lt: "\<forall>a. ?acc' = Some a \<longrightarrow> distance d < distance a"
      from lt have lt1: "distance d < hunkDistance z (rangeN h)"
        and lt2: "\<forall>a. acc = Some a \<longrightarrow> distance d < distance a"
        by (auto simp: mkData_def split: option.splits if_splits)
      have "Suc k < length (h # hs) \<and> getState ((h # hs) ! Suc k) = Pending \<and> d = mkData z (n + Suc k) ((h # hs) ! Suc k)
          \<and> (\<forall>j<Suc k. getState ((h # hs) ! j) = Pending \<longrightarrow> distance d < hunkDistance z (rangeN ((h # hs) ! j)))
          \<and> (\<forall>j<length (h # hs). getState ((h # hs) ! j) = Pending \<longrightarrow> distance d \<le> hunkDistance z (rangeN ((h # hs) ! j)))
          \<and> (\<forall>a. acc = Some a \<longrightarrow> distance d < distance a)"
        using k e b lt1 lt2 by (auto simp: All_less_Suc2)
      then show ?thesis by blast
    qed
  qed
qed


lemma nearestLoop_None: "nearestLoop z xs acc = None \<longleftrightarrow> xs = [] \<and> acc = None"
  by (induction z xs acc rule: nearestLoop.induct) (simp_all add: Let_def split: option.splits)

lemma pendingHunks_Nil: "pendingHunks hs = [] \<longleftrightarrow> (\<forall>j<length hs. getState (hs ! j) \<noteq> Pending)"
  by (auto simp: pendingHunks_def filter_empty_conv in_set_enumerate_eq)

lemma nearestLoop_isNearest:
  assumes "nearestLoop z (pendingHunks hs) None = Some d"
  shows "isNearest z hs (target d) (distance d)"
proof -
  from nearestLoop_enum[of z 0 hs None d] assms
  obtain k where k: "k < length hs" "getState (hs ! k) = Pending" "d = mkData z k (hs ! k)"
    and e: "\<forall>j<k. getState (hs ! j) = Pending \<longrightarrow> distance d < hunkDistance z (rangeN (hs ! j))"
    and b: "\<forall>j<length hs. getState (hs ! j) = Pending \<longrightarrow> distance d \<le> hunkDistance z (rangeN (hs ! j))"
    by (auto simp: pendingHunks_def)
  have "\<forall>j<length hs. getState (hs ! j) = Pending \<longrightarrow>
           distance d < hunkDistance z (rangeN (hs ! j))
           \<or> (distance d = hunkDistance z (rangeN (hs ! j)) \<and> k \<le> j)"
  proof (intro allI impI)
    fix j assume j: "j < length hs" "getState (hs ! j) = Pending"
    with b have "distance d \<le> hunkDistance z (rangeN (hs ! j))" by blast
    moreover have "j < k \<Longrightarrow> distance d < hunkDistance z (rangeN (hs ! j))" using e j by blast
    ultimately show "distance d < hunkDistance z (rangeN (hs ! j))
           \<or> (distance d = hunkDistance z (rangeN (hs ! j)) \<and> k \<le> j)" by force
  qed
  with k show ?thesis by (simp add: isNearest_def mkData_def)
qed

lemma displayDataFor_distance:
  "getState h = Pending \<Longrightarrow> hd_distance (snd (displayDataFor z i h m)) = hunkDistance z (rangeN h)"
  by (simp add: displayDataFor_def Let_def split: option.splits)

lemma renderLoop_enum:
  "snd (renderLoop z (enumerate n hs) (m, w)) = Some (i, d) \<Longrightarrow>
     (w = Some (i, d) \<and> (\<forall>j<length hs. getState (hs ! j) = Pending \<longrightarrow> hd_distance d \<le> hunkDistance z (rangeN (hs ! j))))
   \<or> (\<exists>k<length hs. getState (hs ! k) = Pending \<and> i = n + k \<and> hd_distance d = hunkDistance z (rangeN (hs ! k))
        \<and> (\<forall>j<k. getState (hs ! j) = Pending \<longrightarrow> hd_distance d < hunkDistance z (rangeN (hs ! j)))
        \<and> (\<forall>j<length hs. getState (hs ! j) = Pending \<longrightarrow> hd_distance d \<le> hunkDistance z (rangeN (hs ! j)))
        \<and> (\<forall>a. w = Some a \<longrightarrow> hd_distance d < hd_distance (snd a)))"
proof (induction hs arbitrary: n m w)
  case Nil
  then show ?case by simp
next
  case (Cons h hs)
  obtain m' data where md: "displayDataFor z n h m = (m', data)" by (cases "displayDataFor z n h m")
  let ?w' = "if getState h = Pending \<and> (case w of None \<Rightarrow> True | Some (_, x) \<Rightarrow> hd_distance data < hd_distance x)
             then Some (n, data) else w"
  from Cons.prems md have r: "snd (renderLoop z (enumerate (Suc n) hs) (m', ?w')) = Some (i, d)"
    by (simp add: Let_def)
  have dd: "getState h = Pending \<Longrightarrow> hd_distance data = hunkDistance z (rangeN h)"
    using displayDataFor_distance[of h z n m] md by simp
  from Cons.IH[OF r] show ?case
  proof (elim disjE exE conjE)
    assume a: "?w' = Some (i, d)"
      and b: "\<forall>j<length hs. getState (hs ! j) = Pending \<longrightarrow> hd_distance d \<le> hunkDistance z (rangeN (hs ! j))"
    show ?thesis
    proof (cases "w = Some (i, d)")
      case True
      with a dd have "getState h = Pending \<longrightarrow> hd_distance d \<le> hunkDistance z (rangeN h)"
        by (auto split: if_splits)
      with True b show ?thesis
        by (auto simp: All_less_Suc2)
    next
      case False
      with a have p: "getState h = Pending" and d: "i = n" "d = data"
        and lt: "\<forall>a. w = Some a \<longrightarrow> hd_distance d < hd_distance (snd a)"
        by (auto split: option.splits if_splits)
      have "0 < length (h # hs) \<and> getState ((h # hs) ! 0) = Pending \<and> i = n + 0
          \<and> hd_distance d = hunkDistance z (rangeN ((h # hs) ! 0))
          \<and> (\<forall>j<0. getState ((h # hs) ! j) = Pending \<longrightarrow> hd_distance d < hunkDistance z (rangeN ((h # hs) ! j)))
          \<and> (\<forall>j<length (h # hs). getState ((h # hs) ! j) = Pending \<longrightarrow> hd_distance d \<le> hunkDistance z (rangeN ((h # hs) ! j)))
          \<and> (\<forall>a. w = Some a \<longrightarrow> hd_distance d < hd_distance (snd a))"
        using p d lt b dd by (auto simp: All_less_Suc2)
      then show ?thesis by blast
    qed
  next
    fix k
    assume k: "k < length hs" "getState (hs ! k) = Pending" "i = Suc n + k"
        "hd_distance d = hunkDistance z (rangeN (hs ! k))"
      and e: "\<forall>j<k. getState (hs ! j) = Pending \<longrightarrow> hd_distance d < hunkDistance z (rangeN (hs ! j))"
      and b: "\<forall>j<length hs. getState (hs ! j) = Pending \<longrightarrow> hd_distance d \<le> hunkDistance z (rangeN (hs ! j))"
      and lt: "\<forall>a. ?w' = Some a \<longrightarrow> hd_distance d < hd_distance (snd a)"
    from lt dd have lt1: "getState h = Pending \<longrightarrow> hd_distance d < hunkDistance z (rangeN h)"
      and lt2: "\<forall>a. w = Some a \<longrightarrow> hd_distance d < hd_distance (snd a)"
      by (auto split: option.splits if_splits)
    have "Suc k < length (h # hs) \<and> getState ((h # hs) ! Suc k) = Pending \<and> i = n + Suc k
          \<and> hd_distance d = hunkDistance z (rangeN ((h # hs) ! Suc k))
          \<and> (\<forall>j<Suc k. getState ((h # hs) ! j) = Pending \<longrightarrow> hd_distance d < hunkDistance z (rangeN ((h # hs) ! j)))
          \<and> (\<forall>j<length (h # hs). getState ((h # hs) ! j) = Pending \<longrightarrow> hd_distance d \<le> hunkDistance z (rangeN ((h # hs) ! j)))
          \<and> (\<forall>a. w = Some a \<longrightarrow> hd_distance d < hd_distance (snd a))"
      using k e b lt1 lt2 by (auto simp: All_less_Suc2)
    then show ?thesis by blast
  qed
qed

lemma renderLoop_None:
  "snd (renderLoop z (enumerate n hs) (m, w)) = None \<longleftrightarrow>
     w = None \<and> (\<forall>j<length hs. getState (hs ! j) \<noteq> Pending)"
proof (induction hs arbitrary: n m w)
  case Nil
  then show ?case by simp
next
  case (Cons h hs)
  obtain m' data where md: "displayDataFor z n h m = (m', data)" by (cases "displayDataFor z n h m")
  show ?case
    by (simp add: md Let_def Cons.IH All_less_Suc2 split: option.splits) 
qed

lemma renderLoop_isNearest:
  assumes "snd (renderLoop z (enumerate 0 hs) (m, None)) = Some (i, d)"
  shows "isNearest z hs i (hd_distance d)"
proof -
  from renderLoop_enum[OF assms]
  obtain k where k: "k < length hs" "getState (hs ! k) = Pending" "i = k"
     "hd_distance d = hunkDistance z (rangeN (hs ! k))"
    and e: "\<forall>j<k. getState (hs ! j) = Pending \<longrightarrow> hd_distance d < hunkDistance z (rangeN (hs ! j))"
    and b: "\<forall>j<length hs. getState (hs ! j) = Pending \<longrightarrow> hd_distance d \<le> hunkDistance z (rangeN (hs ! j))"
    by auto
  have "\<forall>j<length hs. getState (hs ! j) = Pending \<longrightarrow>
           hd_distance d < hunkDistance z (rangeN (hs ! j))
           \<or> (hd_distance d = hunkDistance z (rangeN (hs ! j)) \<and> k \<le> j)"
  proof (intro allI impI)
    fix j assume j: "j < length hs" "getState (hs ! j) = Pending"
    with b have "hd_distance d \<le> hunkDistance z (rangeN (hs ! j))" by blast
    moreover have "j < k \<Longrightarrow> hd_distance d < hunkDistance z (rangeN (hs ! j))" using e j by blast
    ultimately show "hd_distance d < hunkDistance z (rangeN (hs ! j))
           \<or> (hd_distance d = hunkDistance z (rangeN (hs ! j)) \<and> k \<le> j)" by force
  qed
  with k show ?thesis by (simp add: isNearest_def)
qed


lemma isNearest_unique:
  assumes "isNearest z hs i d" and "isNearest z hs i' d'"
  shows "i' = i \<and> d' = d"
proof -
  from assms have "d < d' \<or> (d = d' \<and> i \<le> i')" and "d' < d \<or> (d' = d \<and> i' \<le> i)"
    by (auto simp: isNearest_def)
  then show ?thesis by auto
qed

text \<open>
  C2. Whenever the store holds a pending hunk, \<open>_updateDiffZones\<close> (LivePreview) and
  \<open>renderHunks\<close> (Live) bind the accept/discard thunks to one hunk: it is pending, the
  recorded distance is its computed distance, every other pending hunk is strictly
  farther away or equally far and later in the order of \<open>getInfo()\<close>, and no other
  hunk has that property.
\<close>

theorem nearest_hunk_selected:
  assumes "\<exists>j<length hs. getState (hs ! j) = Pending"
    and "lp_hunks s = hs" and "lv_hunks t = hs"
  shows "(\<exists>n. lp_thunks (fst (updateDiffZones z s)) = NearestThunks (Some n)
            \<and> snd (updateDiffZones z s) = Some (position n)
            \<and> isNearest z hs (target n) (distance n)
            \<and> (\<forall>i d. isNearest z hs i d \<longrightarrow> i = target n \<and> d = distance n))
       \<and> (\<exists>i w. lv_thunks (fst (renderHunks z t)) = NearestThunks (i, w)
            \<and> snd (renderHunks z t) = Some (i, w)
            \<and> isNearest z hs i (hd_distance w)
            \<and> (\<forall>i' d. isNearest z hs i' d \<longrightarrow> i' = i \<and> d = hd_distance w))"
proof
  from assms(1) have ne: "pendingHunks hs \<noteq> []"
    by (simp add: pendingHunks_Nil)
  then obtain n where n: "nearestLoop z (pendingHunks hs) None = Some n"
    using nearestLoop_None[of z "pendingHunks hs" None] by (cases "nearestLoop z (pendingHunks hs) None") auto
  have near: "isNearest z hs (target n) (distance n)"
    by (rule nearestLoop_isNearest[OF n])
  have "lp_thunks (fst (updateDiffZones z s)) = NearestThunks (Some n)"
    and "snd (updateDiffZones z s) = Some (position n)"
    using ne n assms(2) by (simp_all add: updateDiffZones_def Let_def)
  with near isNearest_unique[OF near]
  show "\<exists>n. lp_thunks (fst (updateDiffZones z s)) = NearestThunks (Some n)
            \<and> snd (updateDiffZones z s) = Some (position n)
            \<and> isNearest z hs (target n) (distance n)
            \<and> (\<forall>i d. isNearest z hs i d \<longrightarrow> i = target n \<and> d = distance n)"
    by blast
next
  obtain m wd where r: "renderLoop z (enumerate 0 hs) (lv_hunkDisplayData t, None) = (m, wd)"
    by (cases "renderLoop z (enumerate 0 hs) (lv_hunkDisplayData t, None)")
  with assms(1) renderLoop_None[of z 0 hs "lv_hunkDisplayData t" None]
  obtain i w where w: "wd = Some (i, w)"
    by (cases wd) auto
  have near: "isNearest z hs i (hd_distance w)"
    using renderLoop_isNearest[of z hs "lv_hunkDisplayData t" i w] r w by simp
  have "lv_thunks (fst (renderHunks z t)) = NearestThunks (i, w)"
    and "snd (renderHunks z t) = Some (i, w)"
    using r w assms(3) by (simp_all add: renderHunks_def Let_def)
  with near isNearest_unique[OF near]
  show "\<exists>i w. lv_thunks (fst (renderHunks z t)) = NearestThunks (i, w)
            \<and> snd (renderHunks z t) = Some (i, w)
            \<and> isNearest z hs i (hd_distance w)
            \<and> (\<forall>i' d. isNearest z hs i' d \<longrightarrow> i' = i \<and> d = hd_distance w)"
    by blast
qed

text \<open>
  The hunks spanning lines 10-12 and 40-42 with the zone at line 25: both strategies
  select the first hunk, at distance 13 (the second is at distance 15).
\<close>

theorem nearest_hunk_selected_witness:
  "(\<exists>j<length [\<lparr>getState = Pending, rangeN = \<lparr>startLineNumber = 10, endLineNumber = 12\<rparr>\<rparr>,
                 \<lparr>getState = Pending, rangeN = \<lparr>startLineNumber = 40, endLineNumber = 42\<rparr>\<rparr>].
       getState ([\<lparr>getState = Pending, rangeN = \<lparr>startLineNumber = 10, endLineNumber = 12\<rparr>\<rparr>,
                  \<lparr>getState = Pending, rangeN = \<lparr>startLineNumber = 40, endLineNumber = 42\<rparr>\<rparr>] ! j) = Pending)
   \<and> isNearest 25 [\<lparr>getState = Pending, rangeN = \<lparr>startLineNumber = 10, endLineNumber = 12\<rparr>\<rparr>,
                   \<lparr>getState = Pending, rangeN = \<lparr>startLineNumber = 40, endLineNumber = 42\<rparr>\<rparr>] 0 13
   \<and> lp_thunks (fst (updateDiffZones 25
        \<lparr>lp_hunks = [\<lparr>getState = Pending, rangeN = \<lparr>startLineNumber = 10, endLineNumber = 12\<rparr>\<rparr>,
                     \<lparr>getState = Pending, rangeN = \<lparr>startLineNumber = 40, endLineNumber = 42\<rparr>\<rparr>],
         lp_diffZonePool = 0, lp_thunks = BaseMethods, lp_fired = []\<rparr>))
       = NearestThunks (Some \<lparr>position = 9, distance = 13, target = 0\<rparr>)
   \<and> lv_thunks (fst (renderHunks 25
        \<lparr>lv_hunks = [\<lparr>getState = Pending, rangeN = \<lparr>startLineNumber = 10, endLineNumber = 12\<rparr>\<rparr>,
                     \<lparr>getState = Pending, rangeN = \<lparr>startLineNumber = 40, endLineNumber = 42\<rparr>\<rparr>],
         lv_hunkDisplayData = [], lv_thunks = BaseMethods, lv_fired = []\<rparr>))
       = NearestThunks (0, \<lparr>hd_distance = 13, hd_position = 9\<rparr>)"
proof -
  let ?hs = "[\<lparr>getState = Pending, rangeN = \<lparr>startLineNumber = 10, endLineNumber = 12\<rparr>\<rparr>,
              \<lparr>getState = Pending, rangeN = \<lparr>startLineNumber = 40, endLineNumber = 42\<rparr>\<rparr>]"
  let ?s = "\<lparr>lp_hunks = ?hs, lp_diffZonePool = 0, lp_thunks = BaseMethods, lp_fired = []\<rparr>"
  let ?t = "\<lparr>lv_hunks = ?hs, lv_hunkDisplayData = [], lv_thunks = BaseMethods, lv_fired = []\<rparr>"
  have h: "\<exists>j<length ?hs. getState (?hs ! j) = Pending"
    by (rule exI[of _ 0]) simp
  have lp: "lp_thunks (fst (updateDiffZones 25 ?s))
       = NearestThunks (Some \<lparr>position = 9, distance = 13, target = 0\<rparr>)"
    by (simp add: updateDiffZones_def pendingHunks_def enumerate_eq_zip hunkDistance_def Let_def)
  have lv: "lv_thunks (fst (renderHunks 25 ?t))
       = NearestThunks (0, \<lparr>hd_distance = 13, hd_position = 9\<rparr>)"
    by (simp add: renderHunks_def keysLeft_def displayDataFor_def enumerate_eq_zip hunkDistance_def Let_def)
  from nearest_hunk_selected[OF h, of ?s ?t 25] lp
  have "isNearest 25 ?hs 0 13" by auto
  with h lp lv show ?thesis by blast
qed


subsection \<open>C3: the session notifications\<close>

lemma length_retrack: "length (retrack rs hs) = length hs"
  by (induction rs hs rule: retrack.induct) simp_all

lemma states_retrack: "map getState (retrack rs hs) = map getState hs"
  by (induction rs hs rule: retrack.induct) simp_all

lemma length_setState: "length (setState st tr i hs) = length hs"
  by (simp add: setState_def length_retrack)

lemma states_setState:
  "map getState (setState st tr i hs) =
     (if i < length hs \<and> getState (hs ! i) = Pending then (map getState hs)[i := st] else map getState hs)"
  by (simp add: setState_def map_update states_retrack)

lemma pending_states: "pending hs = length (filter (\<lambda>x. x = Pending) (map getState hs))"
  by (simp add: pending_def filter_map comp_def)

lemma sessionResult_states:
  "sessionResult hs = (if Accepted \<in> set (map getState hs) then OnDidAccept else OnDidDiscard)"
  by (force simp: sessionResult_def find_None_iff)

lemma filter_update_less:
  "i < length xs \<Longrightarrow> xs ! i = Pending \<Longrightarrow> st \<noteq> Pending \<Longrightarrow>
   length (filter (\<lambda>x. x = Pending) xs) = Suc (length (filter (\<lambda>x. x = Pending) (xs[i := st])))"
  by (induction xs arbitrary: i) (auto simp: nth_Cons' split: nat.splits if_splits)

lemma pending_setState:
  "i < length hs \<Longrightarrow> getState (hs ! i) = Pending \<Longrightarrow> st \<noteq> Pending \<Longrightarrow>
   pending hs = Suc (pending (setState st tr i hs))"
proof -
  assume a: "i < length hs" "getState (hs ! i) = Pending" "st \<noteq> Pending"
  then have "length (filter (\<lambda>x. x = Pending) (map getState hs))
      = Suc (length (filter (\<lambda>x. x = Pending) ((map getState hs)[i := st])))"
    by (intro filter_update_less) simp_all
  with a show ?thesis
    unfolding pending_states states_setState by simp
qed

lemma pending_0: "pending hs = 0 \<longleftrightarrow> (\<forall>j<length hs. getState (hs ! j) \<noteq> Pending)"
  by (simp add: pending_def filter_empty_conv all_set_conv_all_nth)

lemma setState_idle: "pending hs = 0 \<Longrightarrow> setState st tr i hs = hs"
  by (auto simp: setState_def pending_0)


lemma updateDiffZones_idle:
  "pending (lp_hunks s) = 0 \<Longrightarrow>
   fst (updateDiffZones z s) = s\<lparr>lp_fired := lp_fired s @ [sessionResult (lp_hunks s)]\<rparr>"
  by (simp add: updateDiffZones_def pending_0 pendingHunks_Nil[symmetric])

lemma updateDiffZones_busy:
  assumes "0 < pending (lp_hunks s)"
  shows "lp_inv (fst (updateDiffZones z s)) \<and> lp_fired (fst (updateDiffZones z s)) = lp_fired s
       \<and> lp_hunks (fst (updateDiffZones z s)) = lp_hunks s"
proof -
  from assms have ex: "\<exists>j<length (lp_hunks s). getState (lp_hunks s ! j) = Pending"
    using pending_0[of "lp_hunks s"] by auto
  from ex have ne: "pendingHunks (lp_hunks s) \<noteq> []" by (simp add: pendingHunks_Nil)
  then obtain n where l: "nearestLoop z (pendingHunks (lp_hunks s)) None = Some n"
    using nearestLoop_None[of z "pendingHunks (lp_hunks s)" None]
    by (cases "nearestLoop z (pendingHunks (lp_hunks s)) None") auto
  have near: "isNearest z (lp_hunks s) (target n) (distance n)"
    by (rule nearestLoop_isNearest[OF l])
  from ne l have n: "lp_thunks (fst (updateDiffZones z s)) = NearestThunks (Some n)"
    and h: "lp_hunks (fst (updateDiffZones z s)) = lp_hunks s"
    and f: "lp_fired (fst (updateDiffZones z s)) = lp_fired s"
    by (simp_all add: updateDiffZones_def Let_def)
  from n h near have "lp_inv (fst (updateDiffZones z s))"
    by (simp add: lp_inv_def isNearest_def)
  with h f show ?thesis by simp
qed


lemma lp_step_inv:
  assumes "lp_inv s"
  shows "lp_inv (lp_step x s)
       \<and> pending (lp_hunks (lp_step x s)) = pending (lp_hunks s) - 1
       \<and> lp_fired (lp_step x s) =
           lp_fired s @ (if pending (lp_hunks s) \<le> 1 then [sessionResult (lp_hunks (lp_step x s))] else [])
       \<and> (pending (lp_hunks s) = 0 \<longrightarrow> lp_hunks (lp_step x s) = lp_hunks s)"
proof -
  obtain a z tr where x: "x = (a, z, tr)" by (cases x)
  from assms obtain n where n: "lp_thunks s = NearestThunks (Some n)"
    and t: "0 < pending (lp_hunks s) \<Longrightarrow> target n < length (lp_hunks s) \<and> getState (lp_hunks s ! target n) = Pending"
    by (auto simp: lp_inv_def)
  define st where "st = (case a of AcceptHunk \<Rightarrow> Accepted | DiscardHunk \<Rightarrow> Discarded)"
  define s' where "s' = s\<lparr>lp_hunks := setState st tr (target n) (lp_hunks s)\<rparr>"
  have step: "lp_step x s = fst (updateDiffZones z s')"
    using n by (cases a) (simp_all add: lp_step_def x lp_acceptHunk_def lp_discardHunk_def
        acceptChanges_def discardChanges_def s'_def st_def)
  have st: "st \<noteq> Pending" by (cases a) (simp_all add: st_def)
  show ?thesis
  proof (cases "pending (lp_hunks s) = 0")
    case True
    then have "s' = s" by (simp add: s'_def setState_idle)
    with True step n show ?thesis
      by (simp add: updateDiffZones_idle lp_inv_def)
  next
    case False
    with t have tt: "target n < length (lp_hunks s)" "getState (lp_hunks s ! target n) = Pending" by auto
    from pending_setState[OF tt st, of tr]
    have p: "pending (lp_hunks s) = Suc (pending (lp_hunks s'))" by (simp add: s'_def)
    show ?thesis
    proof (cases "pending (lp_hunks s') = 0")
      case True
      with p step n show ?thesis
        by (simp add: updateDiffZones_idle lp_inv_def s'_def)
    next
      case False
      then have "0 < pending (lp_hunks s')" by simp
      from updateDiffZones_busy[OF this, of z] p False step show ?thesis
        by (simp add: s'_def)
    qed
  qed
qed

lemma lp_run_step: "lp_run s (x # xs) = lp_run (lp_step x s) xs"
  by simp

lemma lp_run_idle:
  "lp_inv s \<Longrightarrow> pending (lp_hunks s) = 0 \<Longrightarrow> lp_hunks (lp_run s xs) = lp_hunks s"
proof (induction xs arbitrary: s)
  case Nil
  then show ?case by simp
next
  case (Cons x xs)
  from lp_step_inv[OF Cons.prems(1), of x] Cons.prems(2)
  have "lp_inv (lp_step x s)" "pending (lp_hunks (lp_step x s)) = 0" "lp_hunks (lp_step x s) = lp_hunks s"
    by simp_all
  with Cons.IH[of "lp_step x s"] show ?case
    by (simp only: lp_run_step)
qed

lemma lp_run_fired:
  "lp_inv s \<Longrightarrow>
     lp_fired (lp_run s xs) =
       lp_fired s @ replicate (length xs - (pending (lp_hunks s) - 1)) (sessionResult (lp_hunks (lp_run s xs)))
   \<and> pending (lp_hunks (lp_run s xs)) = pending (lp_hunks s) - length xs"
proof (induction xs arbitrary: s)
  case Nil
  then show ?case by simp
next
  case (Cons x xs)
  let ?s = "lp_step x s"
  from lp_step_inv[OF Cons.prems, of x]
  have i: "lp_inv ?s" and p: "pending (lp_hunks ?s) = pending (lp_hunks s) - 1"
    and f: "lp_fired ?s = lp_fired s @ (if pending (lp_hunks s) \<le> 1 then [sessionResult (lp_hunks ?s)] else [])"
    by simp_all
  from Cons.IH[OF i]
  have ih: "lp_fired (lp_run ?s xs) =
       lp_fired ?s @ replicate (length xs - (pending (lp_hunks ?s) - 1)) (sessionResult (lp_hunks (lp_run ?s xs)))"
    and ihp: "pending (lp_hunks (lp_run ?s xs)) = pending (lp_hunks ?s) - length xs"
    by simp_all
  show ?case
  proof (cases "pending (lp_hunks s) \<le> 1")
    case True
    with p have z: "pending (lp_hunks ?s) = 0" by simp
    from lp_run_idle[OF i z] have "lp_hunks (lp_run ?s xs) = lp_hunks ?s" .
    with ih f True z ihp p show ?thesis
      by (simp add: lp_run_step replicate_app_Cons_same)
  next
    case False
    then have "length (x # xs) - (pending (lp_hunks s) - 1) = length xs - (pending (lp_hunks ?s) - 1)"
      using p by simp
    with ih f False ihp p show ?thesis
      by (simp add: lp_run_step)
  qed
qed


lemma keys_displayDataFor:
  "fst ` set (fst (displayDataFor z i h m)) = insert i (fst ` set m)"
  by (auto simp: displayDataFor_def Let_def dom_update dest: map_of_SomeD split: option.splits
      intro: rev_image_eqI)

lemma keys_renderLoop:
  "fst ` set (fst (renderLoop z (enumerate n hs) (m, w))) = fst ` set m \<union> {n..<n + length hs}"
proof (induction hs arbitrary: n m w)
  case Nil
  then show ?case by simp
next
  case (Cons h hs)
  obtain m' data where md: "displayDataFor z n h m = (m', data)" by (cases "displayDataFor z n h m")
  with keys_displayDataFor[of z n h m] have "fst ` set m' = insert n (fst ` set m)" by simp
  with md show ?case
    by (auto simp: Let_def Cons.IH)
qed

lemma keys_delete: "fst ` set (AList.delete k m) = fst ` set m - {k}"
proof -
  have "set (map fst (AList.delete k m)) = set (map fst m) - {k}"
    by (simp only: delete_keys set_removeAll)
  then show ?thesis by simp
qed

lemma keys_fold_delete:
  "fst ` set (fold AList.delete ks m) = fst ` set m - set ks"
  by (induction ks arbitrary: m) (auto simp: keys_delete)

lemma renderHunks_data:
  assumes "lv_hunks s \<noteq> []"
  shows "fold AList.delete (keysLeft (lv_hunks s) (lv_hunkDisplayData s))
           (fst (renderLoop z (enumerate 0 (lv_hunks s)) (lv_hunkDisplayData s, None))) \<noteq> []"
proof -
  let ?m = "fst (renderLoop z (enumerate 0 (lv_hunks s)) (lv_hunkDisplayData s, None))"
  let ?ks = "keysLeft (lv_hunks s) (lv_hunkDisplayData s)"
  from assms have "0 \<in> fst ` set ?m" by (simp add: keys_renderLoop)
  moreover from assms have "0 \<notin> set ?ks" by (simp add: keysLeft_def)
  ultimately have "0 \<in> fst ` set (fold AList.delete ?ks ?m)"
    by (simp only: keys_fold_delete) simp
  then show ?thesis by auto
qed

lemma renderHunks_idle:
  assumes "pending (lv_hunks s) = 0" and "lv_hunks s \<noteq> []"
  shows "lv_fired (fst (renderHunks z s)) = lv_fired s @ [sessionResult (lv_hunks s)]
       \<and> lv_hunks (fst (renderHunks z s)) = lv_hunks s
       \<and> lv_thunks (fst (renderHunks z s)) = lv_thunks s"
proof -
  obtain m wd where r: "renderLoop z (enumerate 0 (lv_hunks s)) (lv_hunkDisplayData s, None) = (m, wd)"
    by (cases "renderLoop z (enumerate 0 (lv_hunks s)) (lv_hunkDisplayData s, None)")
  with assms(1) renderLoop_None[of z 0 "lv_hunks s" "lv_hunkDisplayData s" None]
  have w: "wd = None" by (simp add: pending_0)
  from renderHunks_data[OF assms(2), of z] r
  have "fold AList.delete (keysLeft (lv_hunks s) (lv_hunkDisplayData s)) m \<noteq> []"
    by simp
  with r w show ?thesis
    by (simp add: renderHunks_def Let_def)
qed

lemma renderHunks_busy:
  assumes "0 < pending (lv_hunks s)"
  shows "lv_inv (fst (renderHunks z s)) \<and> lv_fired (fst (renderHunks z s)) = lv_fired s
       \<and> lv_hunks (fst (renderHunks z s)) = lv_hunks s"
proof -
  from assms have ex: "\<exists>j<length (lv_hunks s). getState (lv_hunks s ! j) = Pending"
    using pending_0[of "lv_hunks s"] by auto
  obtain m wd where r: "renderLoop z (enumerate 0 (lv_hunks s)) (lv_hunkDisplayData s, None) = (m, wd)"
    by (cases "renderLoop z (enumerate 0 (lv_hunks s)) (lv_hunkDisplayData s, None)")
  with ex renderLoop_None[of z 0 "lv_hunks s" "lv_hunkDisplayData s" None]
  obtain i w where w: "wd = Some (i, w)"
    by (cases wd) auto
  have near: "isNearest z (lv_hunks s) i (hd_distance w)"
    using renderLoop_isNearest[of z "lv_hunks s" "lv_hunkDisplayData s" i w] r w by simp
  from r w have n: "lv_thunks (fst (renderHunks z s)) = NearestThunks (i, w)"
    and h: "lv_hunks (fst (renderHunks z s)) = lv_hunks s"
    and f: "lv_fired (fst (renderHunks z s)) = lv_fired s"
    by (simp_all add: renderHunks_def Let_def)
  from ex have "lv_hunks s \<noteq> []" by auto
  with n h near have "lv_inv (fst (renderHunks z s))"
    by (simp add: lv_inv_def isNearest_def)
  with h f show ?thesis by simp
qed

lemma lv_step_inv:
  assumes "lv_inv s"
  shows "lv_inv (lv_step x s)
       \<and> pending (lv_hunks (lv_step x s)) = pending (lv_hunks s) - 1
       \<and> lv_fired (lv_step x s) =
           lv_fired s @ (if pending (lv_hunks s) \<le> 1 then [sessionResult (lv_hunks (lv_step x s))] else [])
       \<and> (pending (lv_hunks s) = 0 \<longrightarrow> lv_hunks (lv_step x s) = lv_hunks s)"
proof -
  obtain a z tr where x: "x = (a, z, tr)" by (cases x)
  from assms obtain i w where n: "lv_thunks s = NearestThunks (i, w)"
    and ne: "lv_hunks s \<noteq> []"
    and t: "0 < pending (lv_hunks s) \<Longrightarrow> i < length (lv_hunks s) \<and> getState (lv_hunks s ! i) = Pending"
    by (auto simp: lv_inv_def)
  define st where "st = (case a of AcceptHunk \<Rightarrow> Accepted | DiscardHunk \<Rightarrow> Discarded)"
  define s' where "s' = s\<lparr>lv_hunks := setState st tr i (lv_hunks s)\<rparr>"
  have step: "lv_step x s = fst (renderHunks z s')"
    using n by (cases a) (simp_all add: lv_step_def x lv_acceptHunk_def lv_discardHunk_def
        acceptChanges_def discardChanges_def s'_def st_def)
  have st: "st \<noteq> Pending" by (cases a) (simp_all add: st_def)
  have ne': "lv_hunks s' \<noteq> []" using ne length_setState[of st tr i "lv_hunks s"]
    by (auto simp: s'_def)
  show ?thesis
  proof (cases "pending (lv_hunks s) = 0")
    case True
    then have "s' = s" by (simp add: s'_def setState_idle)
    with True step n ne renderHunks_idle[OF True ne, of z] show ?thesis
      by (simp add: lv_inv_def)
  next
    case False
    with t have tt: "i < length (lv_hunks s)" "getState (lv_hunks s ! i) = Pending" by auto
    from pending_setState[OF tt st, of tr]
    have p: "pending (lv_hunks s) = Suc (pending (lv_hunks s'))" by (simp add: s'_def)
    show ?thesis
    proof (cases "pending (lv_hunks s') = 0")
      case True
      from renderHunks_idle[OF True ne', of z] True p step n ne' show ?thesis
        by (simp add: lv_inv_def s'_def)
    next
      case False
      then have "0 < pending (lv_hunks s')" by simp
      from renderHunks_busy[OF this, of z] p False step show ?thesis
        by (simp add: s'_def)
    qed
  qed
qed

lemma lv_run_step: "lv_run s (x # xs) = lv_run (lv_step x s) xs"
  by simp

lemma lv_run_idle:
  "lv_inv s \<Longrightarrow> pending (lv_hunks s) = 0 \<Longrightarrow> lv_hunks (lv_run s xs) = lv_hunks s"
proof (induction xs arbitrary: s)
  case Nil
  then show ?case by simp
next
  case (Cons x xs)
  from lv_step_inv[OF Cons.prems(1), of x] Cons.prems(2)
  have "lv_inv (lv_step x s)" "pending (lv_hunks (lv_step x s)) = 0" "lv_hunks (lv_step x s) = lv_hunks s"
    by simp_all
  with Cons.IH[of "lv_step x s"] show ?case
    by (simp only: lv_run_step)
qed

lemma lv_run_fired:
  "lv_inv s \<Longrightarrow>
     lv_fired (lv_run s xs) =
       lv_fired s @ replicate (length xs - (pending (lv_hunks s) - 1)) (sessionResult (lv_hunks (lv_run s xs)))
   \<and> pending (lv_hunks (lv_run s xs)) = pending (lv_hunks s) - length xs"
proof (induction xs arbitrary: s)
  case Nil
  then show ?case by simp
next
  case (Cons x xs)
  let ?s = "lv_step x s"
  from lv_step_inv[OF Cons.prems, of x]
  have i: "lv_inv ?s" and p: "pending (lv_hunks ?s) = pending (lv_hunks s) - 1"
    and f: "lv_fired ?s = lv_fired s @ (if pending (lv_hunks s) \<le> 1 then [sessionResult (lv_hunks ?s)] else [])"
    by simp_all
  from Cons.IH[OF i]
  have ih: "lv_fired (lv_run ?s xs) =
       lv_fired ?s @ replicate (length xs - (pending (lv_hunks ?s) - 1)) (sessionResult (lv_hunks (lv_run ?s xs)))"
    and ihp: "pending (lv_hunks (lv_run ?s xs)) = pending (lv_hunks ?s) - length xs"
    by simp_all
  show ?case
  proof (cases "pending (lv_hunks s) \<le> 1")
    case True
    with p have z: "pending (lv_hunks ?s) = 0" by simp
    from lv_run_idle[OF i z] have "lv_hunks (lv_run ?s xs) = lv_hunks ?s" .
    with ih f True z ihp p show ?thesis
      by (simp add: lv_run_step replicate_app_Cons_same)
  next
    case False
    then have "length (x # xs) - (pending (lv_hunks s) - 1) = length xs - (pending (lv_hunks ?s) - 1)"
      using p by simp
    with ih f False ihp p show ?thesis
      by (simp add: lv_run_step)
  qed
qed

text \<open>
  C3, as the code has it. Once a render has met \<open>n \<ge> 1\<close> pending hunks, a sequence of
  \<open>k\<close> accept/discard actions leaves \<open>n - k\<close> pending hunks and has fired
  \<open>k + 1 - n\<close> notifications, all of them the session result (accepted if some hunk is
  \<open>Accepted\<close>, discarded otherwise): none while a pending hunk is left, exactly one by
  the action that resolves the last pending hunk, and one more for every action after
  that. This holds for the LivePreview and for the Live strategy.
\<close>

theorem session_result_fired:
  assumes "lp_hunks s = hs" and "lv_hunks t = hs" and "0 < pending hs"
  shows "lp_fired (lp_run (fst (updateDiffZones z s)) acts) =
           lp_fired s @ replicate (Suc (length acts) - pending hs)
                          (sessionResult (lp_hunks (lp_run (fst (updateDiffZones z s)) acts)))
       \<and> pending (lp_hunks (lp_run (fst (updateDiffZones z s)) acts)) = pending hs - length acts
       \<and> lv_fired (lv_run (fst (renderHunks z t)) acts) =
           lv_fired t @ replicate (Suc (length acts) - pending hs)
                          (sessionResult (lv_hunks (lv_run (fst (renderHunks z t)) acts)))
       \<and> pending (lv_hunks (lv_run (fst (renderHunks z t)) acts)) = pending hs - length acts"
proof -
  from assms have ps: "0 < pending (lp_hunks s)" and pt: "0 < pending (lv_hunks t)"
    by simp_all
  have e: "length acts - (pending hs - 1) = Suc (length acts) - pending hs"
    using assms(3) by simp
  from updateDiffZones_busy[OF ps, of z] lp_run_fired[of "fst (updateDiffZones z s)" acts]
  have a: "lp_fired (lp_run (fst (updateDiffZones z s)) acts) =
           lp_fired s @ replicate (Suc (length acts) - pending hs)
                          (sessionResult (lp_hunks (lp_run (fst (updateDiffZones z s)) acts)))
       \<and> pending (lp_hunks (lp_run (fst (updateDiffZones z s)) acts)) = pending hs - length acts"
    using assms(1) e by simp
  from renderHunks_busy[OF pt, of z] lv_run_fired[of "fst (renderHunks z t)" acts]
  have b: "lv_fired (lv_run (fst (renderHunks z t)) acts) =
           lv_fired t @ replicate (Suc (length acts) - pending hs)
                          (sessionResult (lv_hunks (lv_run (fst (renderHunks z t)) acts)))
       \<and> pending (lv_hunks (lv_run (fst (renderHunks z t)) acts)) = pending hs - length acts"
    using assms(2) e by simp
  from a b show ?thesis by simp
qed

text \<open>
  Two pending hunks, the first accepted and then the second discarded: no pending hunk is
  left and \<open>onDidAccept\<close> has fired once, in both strategies.
\<close>

theorem session_result_fired_witness:
  "0 < pending [\<lparr>getState = Pending, rangeN = \<lparr>startLineNumber = 10, endLineNumber = 12\<rparr>\<rparr>,
                \<lparr>getState = Pending, rangeN = \<lparr>startLineNumber = 40, endLineNumber = 42\<rparr>\<rparr>]
   \<and> lp_fired (lp_run (fst (updateDiffZones 25
        \<lparr>lp_hunks = [\<lparr>getState = Pending, rangeN = \<lparr>startLineNumber = 10, endLineNumber = 12\<rparr>\<rparr>,
                     \<lparr>getState = Pending, rangeN = \<lparr>startLineNumber = 40, endLineNumber = 42\<rparr>\<rparr>],
         lp_diffZonePool = 0, lp_thunks = BaseMethods, lp_fired = []\<rparr>))
        [(AcceptHunk, 9, []), (DiscardHunk, 39, [])]) = [OnDidAccept]
   \<and> lv_fired (lv_run (fst (renderHunks 25
        \<lparr>lv_hunks = [\<lparr>getState = Pending, rangeN = \<lparr>startLineNumber = 10, endLineNumber = 12\<rparr>\<rparr>,
                     \<lparr>getState = Pending, rangeN = \<lparr>startLineNumber = 40, endLineNumber = 42\<rparr>\<rparr>],
         lv_hunkDisplayData = [], lv_thunks = BaseMethods, lv_fired = []\<rparr>))
        [(AcceptHunk, 9, []), (DiscardHunk, 39, [])]) = [OnDidAccept]"
proof -
  let ?hs = "[\<lparr>getState = Pending, rangeN = \<lparr>startLineNumber = 10, endLineNumber = 12\<rparr>\<rparr>,
              \<lparr>getState = Pending, rangeN = \<lparr>startLineNumber = 40, endLineNumber = 42\<rparr>\<rparr>]"
  let ?s = "\<lparr>lp_hunks = ?hs, lp_diffZonePool = 0, lp_thunks = BaseMethods, lp_fired = []\<rparr>"
  let ?t = "\<lparr>lv_hunks = ?hs, lv_hunkDisplayData = [], lv_thunks = BaseMethods, lv_fired = []\<rparr>"
  let ?acts = "[(AcceptHunk, 9::int, []::range list), (DiscardHunk, 39, [])]"
  have p: "pending ?hs = 2" by (simp add: pending_def)
  have lp: "lp_hunks (lp_run (fst (updateDiffZones 25 ?s)) ?acts)
      = [\<lparr>getState = Accepted, rangeN = \<lparr>startLineNumber = 10, endLineNumber = 12\<rparr>\<rparr>,
         \<lparr>getState = Discarded, rangeN = \<lparr>startLineNumber = 40, endLineNumber = 42\<rparr>\<rparr>]"
    by (simp add: updateDiffZones_def pendingHunks_def enumerate_eq_zip hunkDistance_def Let_def
        lp_step_def lp_acceptHunk_def lp_discardHunk_def acceptChanges_def discardChanges_def
        setState_def)
  have lv: "lv_hunks (lv_run (fst (renderHunks 25 ?t)) ?acts)
      = [\<lparr>getState = Accepted, rangeN = \<lparr>startLineNumber = 10, endLineNumber = 12\<rparr>\<rparr>,
         \<lparr>getState = Discarded, rangeN = \<lparr>startLineNumber = 40, endLineNumber = 42\<rparr>\<rparr>]"
    by (simp add: renderHunks_def keysLeft_def displayDataFor_def enumerate_eq_zip hunkDistance_def Let_def
        lv_step_def lv_acceptHunk_def lv_discardHunk_def acceptChanges_def discardChanges_def
        setState_def)
  from session_result_fired[of ?s ?hs ?t 25 ?acts] p lp lv
  show ?thesis by (simp add: sessionResult_def)
qed

text \<open>
  The claim as stated fails for a LivePreview session with one pending hunk that is
  rendered and then accepted twice: no pending hunk is left, and \<open>onDidAccept\<close> has fired
  twice. The early return of line 325 leaves \<open>acceptHunk\<close> bound to the closure over the
  hunk, whose \<open>handleDiff()\<close> runs \<open>_updateDiffZones\<close> again.
\<close>

theorem session_result_twice_counterexample:
  "pending (lp_hunks (lp_run (fst (updateDiffZones 5
        \<lparr>lp_hunks = [\<lparr>getState = Pending, rangeN = \<lparr>startLineNumber = 10, endLineNumber = 12\<rparr>\<rparr>],
         lp_diffZonePool = 0, lp_thunks = BaseMethods, lp_fired = []\<rparr>))
        [(AcceptHunk, 9, []), (AcceptHunk, 9, [])])) = 0
   \<and> lp_fired (lp_run (fst (updateDiffZones 5
        \<lparr>lp_hunks = [\<lparr>getState = Pending, rangeN = \<lparr>startLineNumber = 10, endLineNumber = 12\<rparr>\<rparr>],
         lp_diffZonePool = 0, lp_thunks = BaseMethods, lp_fired = []\<rparr>))
        [(AcceptHunk, 9, []), (AcceptHunk, 9, [])]) = [OnDidAccept, OnDidAccept]"
  by (simp add: updateDiffZones_def pendingHunks_def enumerate_eq_zip hunkDistance_def Let_def
      lp_step_def lp_acceptHunk_def acceptChanges_def setState_def pending_def sessionResult_def)

subsection \<open>C5 and C6: undoing to a target version\<close>

lemma undoModelUntil_stop:
  "\<not> (t < alternativeVersionId m \<and> canUndo m) \<Longrightarrow> undoModelUntil m t = m"
  by (subst undoModelUntil.simps) auto

lemma undoModelUntil_step:
  "t < alternativeVersionId m \<Longrightarrow> canUndo m \<Longrightarrow> undoModelUntil m t = undoModelUntil (undo m) t"
  by (subst undoModelUntil.simps) simp

lemma undo_iter:
  "\<exists>n. undoModelUntil m v = (undo ^^ n) m
     \<and> (\<forall>k<n. v < alternativeVersionId ((undo ^^ k) m) \<and> canUndo ((undo ^^ k) m))
     \<and> \<not> (v < alternativeVersionId ((undo ^^ n) m) \<and> canUndo ((undo ^^ n) m))
     \<and> length (undoStack m) = n + length (undoStack (undoModelUntil m v))"
proof (induction m v rule: undoModelUntil.induct)
  case (1 model t)
  show ?case
  proof (cases "t < alternativeVersionId model \<and> canUndo model")
    case False
    then have "undoModelUntil model t = model" by (rule undoModelUntil_stop)
    with False show ?thesis by (intro exI[of _ 0]) simp
  next
    case True
    from "1.IH"[OF True] obtain n where n: "undoModelUntil (undo model) t = (undo ^^ n) (undo model)"
      "\<forall>k<n. t < alternativeVersionId ((undo ^^ k) (undo model)) \<and> canUndo ((undo ^^ k) (undo model))"
      "\<not> (t < alternativeVersionId ((undo ^^ n) (undo model)) \<and> canUndo ((undo ^^ n) (undo model)))"
      "length (undoStack (undo model)) = n + length (undoStack (undoModelUntil (undo model) t))"
      by blast
    from True have u: "undoModelUntil model t = undoModelUntil (undo model) t"
      by (simp add: undoModelUntil_step)
    from True have l: "length (undoStack model) = Suc (length (undoStack (undo model)))"
      by (auto simp: canUndo_def undo_def split: list.splits)
    have "undoModelUntil model t = (undo ^^ Suc n) model
     \<and> (\<forall>k<Suc n. t < alternativeVersionId ((undo ^^ k) model) \<and> canUndo ((undo ^^ k) model))
     \<and> \<not> (t < alternativeVersionId ((undo ^^ Suc n) model) \<and> canUndo ((undo ^^ Suc n) model))
     \<and> length (undoStack model) = Suc n + length (undoStack (undoModelUntil model t))"
      using n u l True by (simp add: funpow_swap1 All_less_Suc2)
    then show ?thesis by blast
  qed
qed

lemma undo_versions:
  assumes "versionsDescend m"
  shows "alternativeVersionId (undoModelUntil m v) \<in> set (reachable m)
     \<and> (\<forall>u\<in>set (reachable m). u \<le> v \<longrightarrow> u \<le> alternativeVersionId (undoModelUntil m v))
     \<and> ((\<exists>u\<in>set (reachable m). u \<le> v) \<longrightarrow> alternativeVersionId (undoModelUntil m v) \<le> v)
     \<and> ((\<forall>u\<in>set (reachable m). v < u) \<longrightarrow>
           \<not> canUndo (undoModelUntil m v)
           \<and> (\<forall>u\<in>set (reachable m). alternativeVersionId (undoModelUntil m v) \<le> u))"
  using assms
proof (induction m v rule: undoModelUntil.induct)
  case (1 model t)
  show ?case
  proof (cases "t < alternativeVersionId model \<and> canUndo model")
    case False
    then have e: "undoModelUntil model t = model" by (rule undoModelUntil_stop)
    from "1.prems" have "\<forall>u\<in>set (reachable model). u \<le> alternativeVersionId model"
      by (auto simp: versionsDescend_def reachable_def)
    with False e show ?thesis
      by (auto simp: reachable_def canUndo_def)
  next
    case True
    then obtain w c rest where s: "undoStack model = (w, c) # rest"
      by (cases "undoStack model") (auto simp: canUndo_def)
    then have um: "undo model = \<lparr>alternativeVersionId = w, getValue = c, undoStack = rest\<rparr>"
      by (simp add: undo_def)
    from "1.prems" s have d: "versionsDescend (undo model)"
      and r: "reachable model = alternativeVersionId model # reachable (undo model)"
      by (simp_all add: versionsDescend_def reachable_def um)
    from True have u: "undoModelUntil model t = undoModelUntil (undo model) t"
      by (simp add: undoModelUntil_step)
    from "1.prems" r have b: "\<forall>u\<in>set (reachable (undo model)). u < alternativeVersionId model"
      by (simp add: versionsDescend_def)
    from "1.IH"[OF True d] True b show ?thesis
      unfolding u r by (auto simp: less_imp_le)
  qed
qed

text \<open>
  C6. \<open>undoModelUntil\<close> performs \<open>n\<close> single undo steps, where \<open>n\<close> is the first
  number of steps after which the current alternative version is no longer greater than
  the target or no further undo is available: both conditions hold before each of the
  \<open>n\<close> steps, one of them fails after the last, and the undo stack is shorter by exactly
  \<open>n\<close> entries. If the current version is already at or below the target, the model is
  returned as it is.
\<close>

theorem undoModelUntil_while:
  "(\<exists>n. undoModelUntil m v = (undo ^^ n) m
       \<and> (\<forall>k<n. v < alternativeVersionId ((undo ^^ k) m) \<and> canUndo ((undo ^^ k) m))
       \<and> \<not> (v < alternativeVersionId ((undo ^^ n) m) \<and> canUndo ((undo ^^ n) m))
       \<and> length (undoStack m) = n + length (undoStack (undoModelUntil m v)))
   \<and> (alternativeVersionId m \<le> v \<longrightarrow>
        undoModelUntil m v = m \<and> length (undoStack (undoModelUntil m v)) = length (undoStack m))"
proof -
  have "alternativeVersionId m \<le> v \<Longrightarrow> undoModelUntil m v = m"
    by (rule undoModelUntil_stop) simp
  with undo_iter[of m v] show ?thesis by auto
qed

text \<open>
  At version 10 with undo steps back to versions 8, 5 and 1, undoing to version 5 takes
  two steps; undoing to version 10 takes none.
\<close>

theorem undoModelUntil_while_witness:
  "undoModelUntil \<lparr>alternativeVersionId = 10, getValue = ''abc'',
                    undoStack = [(8, ''ab''), (5, ''a''), (1, [])]\<rparr> 5
     = \<lparr>alternativeVersionId = 5, getValue = ''a'', undoStack = [(1, [])]\<rparr>
   \<and> (\<exists>n. undoModelUntil \<lparr>alternativeVersionId = 10, getValue = ''abc'',
                    undoStack = [(8, ''ab''), (5, ''a''), (1, [])]\<rparr> 5
           = (undo ^^ n) \<lparr>alternativeVersionId = 10, getValue = ''abc'',
                    undoStack = [(8, ''ab''), (5, ''a''), (1, [])]\<rparr>
         \<and> 3 = n + length (undoStack (undoModelUntil \<lparr>alternativeVersionId = 10, getValue = ''abc'',
                    undoStack = [(8, ''ab''), (5, ''a''), (1, [])]\<rparr> 5)))
   \<and> undoModelUntil \<lparr>alternativeVersionId = 10, getValue = ''abc'',
                    undoStack = [(8, ''ab''), (5, ''a''), (1, [])]\<rparr> 10
     = \<lparr>alternativeVersionId = 10, getValue = ''abc'',
                    undoStack = [(8, ''ab''), (5, ''a''), (1, [])]\<rparr>"
proof -
  let ?m = "\<lparr>alternativeVersionId = 10, getValue = ''abc'',
             undoStack = [(8, ''ab''), (5, ''a''), (1, [])]\<rparr>"
  have e: "undoModelUntil ?m 5 = \<lparr>alternativeVersionId = 5, getValue = ''a'', undoStack = [(1, [])]\<rparr>"
    by (simp add: undoModelUntil.simps canUndo_def undo_def)
  from undoModelUntil_while[of ?m 5]
  have a: "\<exists>n. undoModelUntil ?m 5 = (undo ^^ n) ?m
         \<and> 3 = n + length (undoStack (undoModelUntil ?m 5))"
    by auto
  from undoModelUntil_while[of ?m 10]
  have b: "undoModelUntil ?m 10 = ?m" by simp
  from e a b show ?thesis by blast
qed

text \<open>
  C5, as the code has it. On a model whose reachable alternative versions descend,
  \<open>undoModelUntil\<close> ends at the highest reachable version at or below the target: at the
  target itself exactly when the target is one of the reachable versions, below it
  otherwise. If every reachable version is above the target, undo is exhausted and the
  model is at the lowest reachable version.
\<close>

theorem undoModelUntil_version:
  assumes "versionsDescend m"
  shows "alternativeVersionId (undoModelUntil m v) \<in> set (reachable m)
     \<and> (v \<in> set (reachable m) \<longrightarrow> alternativeVersionId (undoModelUntil m v) = v)
     \<and> (\<forall>u\<in>set (reachable m). u \<le> v \<longrightarrow> u \<le> alternativeVersionId (undoModelUntil m v))
     \<and> ((\<exists>u\<in>set (reachable m). u \<le> v) \<longrightarrow> alternativeVersionId (undoModelUntil m v) \<le> v)
     \<and> ((\<forall>u\<in>set (reachable m). v < u) \<longrightarrow>
           \<not> canUndo (undoModelUntil m v)
           \<and> (\<forall>u\<in>set (reachable m). alternativeVersionId (undoModelUntil m v) \<le> u))"
proof -
  from undo_versions[OF assms, of v]
  have a: "alternativeVersionId (undoModelUntil m v) \<in> set (reachable m)"
    and b: "\<forall>u\<in>set (reachable m). u \<le> v \<longrightarrow> u \<le> alternativeVersionId (undoModelUntil m v)"
    and c: "(\<exists>u\<in>set (reachable m). u \<le> v) \<longrightarrow> alternativeVersionId (undoModelUntil m v) \<le> v"
    and d: "(\<forall>u\<in>set (reachable m). v < u) \<longrightarrow>
           \<not> canUndo (undoModelUntil m v)
           \<and> (\<forall>u\<in>set (reachable m). alternativeVersionId (undoModelUntil m v) \<le> u)"
    by blast+
  have "v \<in> set (reachable m) \<longrightarrow> alternativeVersionId (undoModelUntil m v) = v"
  proof
    assume v: "v \<in> set (reachable m)"
    with b have "v \<le> alternativeVersionId (undoModelUntil m v)" by blast
    moreover from v c have "alternativeVersionId (undoModelUntil m v) \<le> v" by blast
    ultimately show "alternativeVersionId (undoModelUntil m v) = v" by simp
  qed
  with a b c d show ?thesis by blast
qed

text \<open>
  At version 10 with undo steps back to versions 8, 5 and 1: undoing to 5 ends at 5, and
  undoing to 0 exhausts the stack at version 1.
\<close>

theorem undoModelUntil_version_witness:
  "versionsDescend \<lparr>alternativeVersionId = 10, getValue = ''abc'',
                    undoStack = [(8, ''ab''), (5, ''a''), (1, [])]\<rparr>
   \<and> alternativeVersionId (undoModelUntil \<lparr>alternativeVersionId = 10, getValue = ''abc'',
                    undoStack = [(8, ''ab''), (5, ''a''), (1, [])]\<rparr> 5) = 5
   \<and> \<not> canUndo (undoModelUntil \<lparr>alternativeVersionId = 10, getValue = ''abc'',
                    undoStack = [(8, ''ab''), (5, ''a''), (1, [])]\<rparr> 0)"
proof -
  let ?m = "\<lparr>alternativeVersionId = 10, getValue = ''abc'',
             undoStack = [(8, ''ab''), (5, ''a''), (1, [])]\<rparr>"
  have d: "versionsDescend ?m" by (simp add: versionsDescend_def reachable_def)
  from undoModelUntil_version[OF d, of 5]
  have a: "alternativeVersionId (undoModelUntil ?m 5) = 5" by (simp add: reachable_def)
  from undoModelUntil_version[OF d, of 0]
  have b: "\<not> canUndo (undoModelUntil ?m 0)" by (simp add: reachable_def)
  from d a b show ?thesis by blast
qed

text \<open>
  The claim as stated fails at version 10 with undo steps back to versions 5 and 1 and
  the target 7: the target is below the current version and undo is available, the loop
  stops after one step at version 5, which is not the target, and undo is not exhausted.
\<close>

theorem undoModelUntil_overshoot_counterexample:
  "7 < alternativeVersionId \<lparr>alternativeVersionId = 10, getValue = ''abc'',
                             undoStack = [(5, ''ab''), (1, [])]\<rparr>
   \<and> canUndo \<lparr>alternativeVersionId = 10, getValue = ''abc'', undoStack = [(5, ''ab''), (1, [])]\<rparr>
   \<and> alternativeVersionId (undoModelUntil \<lparr>alternativeVersionId = 10, getValue = ''abc'',
                             undoStack = [(5, ''ab''), (1, [])]\<rparr> 7) = 5
   \<and> canUndo (undoModelUntil \<lparr>alternativeVersionId = 10, getValue = ''abc'',
                             undoStack = [(5, ''ab''), (1, [])]\<rparr> 7)"
  by (simp add: undoModelUntil.simps canUndo_def undo_def)

subsection \<open>C4, C7 and C9: making changes\<close>

lemma replaceRange_append:
  "replaceRange (off + length p) 0 q (replaceRange off len p doc) = replaceRange off len (p @ q) doc"
proof (cases "off \<le> length doc")
  case True
  then show ?thesis by (simp add: replaceRange_def min_def)
next
  case False
  then show ?thesis by (simp add: replaceRange_def)
qed

lemma performParts_concat:
  "performParts (off + length p) 0 ps (replaceRange off len p doc) = replaceRange off len (p @ concat ps) doc"
proof (induction ps arbitrary: p)
  case Nil
  then show ?case by simp
next
  case (Cons q ps)
  have "performParts (off + length p) 0 (q # ps) (replaceRange off len p doc)
      = performParts (off + length (p @ q)) 0 ps (replaceRange off len (p @ q) doc)"
    by (simp add: replaceRange_append add.assoc)
  also have "\<dots> = replaceRange off len ((p @ q) @ concat ps) doc"
    by (rule Cons.IH)
  finally show ?case by simp
qed

lemma performParts_replace:
  "ps \<noteq> [] \<Longrightarrow> performParts off len ps doc = replaceRange off len (concat ps) doc"
  by (cases ps) (simp_all add: performParts_concat)

lemma concat_timeline: "concat (timeline ns t) = t"
  by (induction ns t rule: timeline.induct) simp_all

lemma timeline_not_Nil: "timeline ns t \<noteq> []"
  by (cases ns) simp_all

lemma performAsyncTextEdit_whole:
  "performAsyncTextEdit doc (asProgressiveEdit ticks e None)
     = replaceRange (e_offset e) (e_length e) (textOf e) doc"
  by (simp add: performAsyncTextEdit_def asProgressiveEdit_def performParts_replace timeline_not_Nil
      concat_timeline)

lemma asyncEdits_text:
  "token opts = None \<Longrightarrow>
   textModelN (asyncEdits td cw opts edits schedule s) = pushEditOperations edits (textModelN s)"
  by (induction edits arbitrary: schedule s)
     (simp_all add: pushEditOperations_def performAsyncTextEdit_whole Let_def)

lemma asyncEdits_calls:
  "calls (asyncEdits td cw opts edits schedule s)
     = calls s @ map (\<lambda>e. PerformAsyncTextEdit e (wordsPerSec td opts (cw (textOf e)))) edits"
  by (induction edits arbitrary: schedule s) (simp_all add: Let_def)

lemma asyncEdits_editCount:
  "editCount (asyncEdits td cw opts edits schedule s) = editCount s"
  by (induction edits arbitrary: schedule s) (simp_all add: Let_def)

lemma protected_makeChanges_calls:
  "\<exists>rest. calls (protected_makeChanges td cw schedule edits opts s)
       = calls s @ (if editCount s = 0 then [PushUndoStop] else []) @ rest
     \<and> PushUndoStop \<notin> set rest"
  by (cases opts) (auto simp: protected_makeChanges_def Let_def asyncEdits_calls)

lemma protected_makeChanges_editCount:
  "editCount (protected_makeChanges td cw schedule edits opts s) = Suc (editCount s)"
  by (cases opts) (simp_all add: protected_makeChanges_def Let_def asyncEdits_editCount)

lemma makeChangesRun_later:
  "0 < editCount s \<Longrightarrow>
   \<exists>rest. calls (makeChangesRun td cw cs s) = calls s @ rest \<and> PushUndoStop \<notin> set rest"
proof (induction cs arbitrary: s)
  case Nil
  then show ?case by simp
next
  case (Cons c cs)
  obtain edits opts schedule where c: "c = (edits, opts, schedule)" by (cases c)
  let ?s = "protected_makeChanges td cw schedule edits opts s"
  from protected_makeChanges_calls[of td cw schedule edits opts s] Cons.prems
  obtain r1 where r1: "calls ?s = calls s @ r1" "PushUndoStop \<notin> set r1" by auto
  have "0 < editCount ?s" by (simp add: protected_makeChanges_editCount)
  from Cons.IH[OF this]
  obtain r2 where r2: "calls (makeChangesRun td cw cs ?s) = calls ?s @ r2" "PushUndoStop \<notin> set r2" by auto
  from r1 r2 have "calls (makeChangesRun td cw (c # cs) s) = calls s @ (r1 @ r2) \<and> PushUndoStop \<notin> set (r1 @ r2)"
    by (simp add: c)
  then show ?case by blast
qed

text \<open>
  C7. A strategy starts with \<open>_editCount = 0\<close>. Over any non-empty sequence of
  \<open>makeChanges\<close> and \<open>makeProgressiveChanges\<close> calls, the first thing the first call
  does is to push an undo stop, before any edit is applied, and no later step of that
  call or of any later call pushes another one.
\<close>

theorem undo_stop_once:
  assumes "editCount s = 0" and "cs \<noteq> []"
  shows "\<exists>rest. calls (makeChangesRun toDouble countWords cs s) = calls s @ PushUndoStop # rest
            \<and> PushUndoStop \<notin> set rest"
proof -
  from assms(2) obtain c cs' where cs: "cs = c # cs'" by (cases cs) auto
  obtain edits opts schedule where c: "c = (edits, opts, schedule)" by (cases c)
  let ?s = "protected_makeChanges toDouble countWords schedule edits opts s"
  from protected_makeChanges_calls[of toDouble countWords schedule edits opts s] assms(1)
  obtain r1 where r1: "calls ?s = calls s @ PushUndoStop # r1" "PushUndoStop \<notin> set r1" by auto
  have "0 < editCount ?s" by (simp add: protected_makeChanges_editCount)
  from makeChangesRun_later[OF this, of toDouble countWords cs']
  obtain r2 where r2: "calls (makeChangesRun toDouble countWords cs' ?s) = calls ?s @ r2" "PushUndoStop \<notin> set r2"
    by auto
  from r1 r2 have "calls (makeChangesRun toDouble countWords cs s) = calls s @ PushUndoStop # (r1 @ r2)
      \<and> PushUndoStop \<notin> set (r1 @ r2)"
    by (simp add: cs c)
  then show ?thesis by blast
qed

text \<open>An immediate batch followed by a paced one: one undo stop, ahead of everything.\<close>

theorem undo_stop_once_witness:
  "editCount \<lparr>editCount = 0, textModelN = ''abcd'', calls = []\<rparr> = 0
   \<and> calls (makeChangesRun Finite length
        [([\<lparr>e_offset = 1, e_length = 2, e_text = Some ''xy''\<rparr>], None, []),
         ([\<lparr>e_offset = 0, e_length = 0, e_text = Some ''hello''\<rparr>],
          Some \<lparr>duration = 1000, token = None\<rparr>, [[2]])]
        \<lparr>editCount = 0, textModelN = ''abcd'', calls = []\<rparr>)
     = [PushUndoStop, ObsStart,
        PushEditOperations [\<lparr>e_offset = 1, e_length = 2, e_text = Some ''xy''\<rparr>], ObsStop,
        PerformAsyncTextEdit \<lparr>e_offset = 0, e_length = 0, e_text = Some ''hello''\<rparr> (Finite 5)]"
proof -
  let ?s = "\<lparr>editCount = 0, textModelN = ''abcd'', calls = []\<rparr>"
  let ?cs = "[([\<lparr>e_offset = 1, e_length = 2, e_text = Some ''xy''\<rparr>], None, []),
         ([\<lparr>e_offset = 0, e_length = 0, e_text = Some ''hello''\<rparr>],
          Some \<lparr>duration = 1000, token = None\<rparr>, [[2]])]"
  have e: "calls (makeChangesRun Finite length ?cs ?s)
     = [PushUndoStop, ObsStart,
        PushEditOperations [\<lparr>e_offset = 1, e_length = 2, e_text = Some ''xy''\<rparr>], ObsStop,
        PerformAsyncTextEdit \<lparr>e_offset = 0, e_length = 0, e_text = Some ''hello''\<rparr> (Finite 5)]"
    by (simp add: protected_makeChanges_def Let_def wordsPerSec_def durationInSec_def jsDivide_def
        textOf_def)
  from undo_stop_once[of ?s ?cs Finite length] e show ?thesis by simp
qed

text \<open>
  C4. Without cancellation, \<open>makeProgressiveChanges\<close> leaves the document with the same
  content as \<open>makeChanges\<close> on the same edits, whatever the duration, the word counter,
  the rounding of the rate and the sizes of the sub-edits.
\<close>

theorem paced_equals_immediate:
  assumes "token opts = None"
  shows "textModelN (makeProgressiveChanges toDouble countWords schedule edits opts s)
       = textModelN (makeChanges edits s)"
  using assms
  by (simp add: makeProgressiveChanges_def makeChanges_def protected_makeChanges_def Let_def
      asyncEdits_text)

text \<open>
  Replacing \<open>bc\<close> in \<open>abcd\<close> by \<open>hello\<close> in sub-edits of 1, 2 and 2 characters, then
  an insertion of \<open>null\<close> text: \<open>ahellod\<close>, as in one transaction.
\<close>

theorem paced_equals_immediate_witness:
  "token \<lparr>duration = 1000, token = None\<rparr> = None
   \<and> textModelN (makeProgressiveChanges Finite length [[1, 2]]
        [\<lparr>e_offset = 1, e_length = 2, e_text = Some ''hello''\<rparr>,
         \<lparr>e_offset = 0, e_length = 0, e_text = None\<rparr>]
        \<lparr>duration = 1000, token = None\<rparr>
        \<lparr>editCount = 0, textModelN = ''abcd'', calls = []\<rparr>) = ''ahellod''
   \<and> textModelN (makeChanges
        [\<lparr>e_offset = 1, e_length = 2, e_text = Some ''hello''\<rparr>,
         \<lparr>e_offset = 0, e_length = 0, e_text = None\<rparr>]
        \<lparr>editCount = 0, textModelN = ''abcd'', calls = []\<rparr>) = ''ahellod''"
proof -
  let ?es = "[\<lparr>e_offset = 1, e_length = 2, e_text = Some ''hello''\<rparr>,
              \<lparr>e_offset = 0, e_length = 0, e_text = None\<rparr>]"
  let ?o = "\<lparr>duration = 1000, token = None\<rparr>"
  let ?s = "\<lparr>editCount = 0, textModelN = ''abcd'', calls = []\<rparr>"
  have t: "token ?o = None" by simp
  have m: "textModelN (makeChanges ?es ?s) = ''ahellod''"
    by (simp add: makeChanges_def protected_makeChanges_def Let_def pushEditOperations_def
        textOf_def replaceRange_def)
  from paced_equals_immediate[OF t, of Finite length "[[1, 2]]" ?es ?s] m t show ?thesis by simp
qed

text \<open>
  C9, as the code has it. The rate handed on with each progressive edit is the word count
  of the edit's text divided by \<open>opts.duration / 1000\<close>, both divisions on doubles. The
  divisor is computed from the duration alone and is not guarded. Whenever it is 0, as it
  is for the duration 0, the rate is \<open>NaN\<close> for a text without words and an infinity for
  any other text. Whenever it is finite and not 0, the rate is 0 for a text without words
  and the rounded quotient for any other text.
\<close>

theorem progressive_rate:
  "calls (makeProgressiveChanges toDouble countWords schedule edits opts s)
     = calls s @ (if editCount s = 0 then [PushUndoStop] else [])
         @ map (\<lambda>e. PerformAsyncTextEdit e
                  (jsDivide toDouble (Finite (of_nat (countWords (textOf e))))
                     (durationInSec toDouble opts))) edits
   \<and> (duration opts = 0 \<longrightarrow> durationInSec toDouble opts = Finite 0)
   \<and> (durationInSec toDouble opts = Finite 0 \<longrightarrow>
        (\<forall>e. jsDivide toDouble (Finite (of_nat (countWords (textOf e)))) (durationInSec toDouble opts)
               = (if countWords (textOf e) = 0 then NaN else Infinity)))
   \<and> (\<forall>d. durationInSec toDouble opts = Finite d \<and> d \<noteq> 0 \<longrightarrow>
        (\<forall>e. jsDivide toDouble (Finite (of_nat (countWords (textOf e)))) (durationInSec toDouble opts)
               = (if countWords (textOf e) = 0 then Finite 0
                  else toDouble (of_nat (countWords (textOf e)) / d))))"
proof (intro conjI)
  show "calls (makeProgressiveChanges toDouble countWords schedule edits opts s)
     = calls s @ (if editCount s = 0 then [PushUndoStop] else [])
         @ map (\<lambda>e. PerformAsyncTextEdit e
                  (jsDivide toDouble (Finite (of_nat (countWords (textOf e))))
                     (durationInSec toDouble opts))) edits"
    by (simp add: makeProgressiveChanges_def protected_makeChanges_def Let_def asyncEdits_calls
        wordsPerSec_def)
  show "duration opts = 0 \<longrightarrow> durationInSec toDouble opts = Finite 0"
    by (simp add: durationInSec_def jsDivide_def)
  show "durationInSec toDouble opts = Finite 0 \<longrightarrow>
        (\<forall>e. jsDivide toDouble (Finite (of_nat (countWords (textOf e)))) (durationInSec toDouble opts)
               = (if countWords (textOf e) = 0 then NaN else Infinity))"
    by (simp add: jsDivide_def)
  show "\<forall>d. durationInSec toDouble opts = Finite d \<and> d \<noteq> 0 \<longrightarrow>
        (\<forall>e. jsDivide toDouble (Finite (of_nat (countWords (textOf e)))) (durationInSec toDouble opts)
               = (if countWords (textOf e) = 0 then Finite 0
                  else toDouble (of_nat (countWords (textOf e)) / d)))"
    by (simp add: jsDivide_def)
qed

text \<open>
  With quotients that are doubles as they stand: at a duration of 2000 ms a text counted
  as 11 words goes out at 11/2 words per second and a \<open>null\<close> text at 0; at a duration
  of 0 the same two edits go out at an infinity and at \<open>NaN\<close>.
\<close>

theorem progressive_rate_witness:
  "calls (makeProgressiveChanges Finite length []
        [\<lparr>e_offset = 0, e_length = 0, e_text = Some ''hello world''\<rparr>,
         \<lparr>e_offset = 0, e_length = 1, e_text = None\<rparr>]
        \<lparr>duration = 2000, token = None\<rparr>
        \<lparr>editCount = 0, textModelN = ''abcd'', calls = []\<rparr>)
     = [PushUndoStop,
        PerformAsyncTextEdit \<lparr>e_offset = 0, e_length = 0, e_text = Some ''hello world''\<rparr> (Finite (11 / 2)),
        PerformAsyncTextEdit \<lparr>e_offset = 0, e_length = 1, e_text = None\<rparr> (Finite 0)]
   \<and> calls (makeProgressiveChanges Finite length []
        [\<lparr>e_offset = 0, e_length = 0, e_text = Some ''hello world''\<rparr>,
         \<lparr>e_offset = 0, e_length = 1, e_text = None\<rparr>]
        \<lparr>duration = 0, token = None\<rparr>
        \<lparr>editCount = 0, textModelN = ''abcd'', calls = []\<rparr>)
     = [PushUndoStop,
        PerformAsyncTextEdit \<lparr>e_offset = 0, e_length = 0, e_text = Some ''hello world''\<rparr> Infinity,
        PerformAsyncTextEdit \<lparr>e_offset = 0, e_length = 1, e_text = None\<rparr> NaN]"
proof -
  let ?e1 = "\<lparr>e_offset = 0, e_length = 0, e_text = Some ''hello world''\<rparr>"
  let ?e2 = "\<lparr>e_offset = 0, e_length = 1, e_text = None\<rparr>"
  let ?a = "\<lparr>duration = 2000, token = None\<rparr>"
  let ?z = "\<lparr>duration = 0, token = None\<rparr>"
  let ?s = "\<lparr>editCount = 0, textModelN = ''abcd'', calls = []\<rparr>"
  have w1: "length (textOf ?e1) = 11" and w2: "length (textOf ?e2) = 0"
    by (simp_all add: textOf_def)
  have da: "durationInSec Finite ?a = Finite 2"
    by (simp add: durationInSec_def jsDivide_def)
  note a = progressive_rate[of Finite length "[]" "[?e1, ?e2]" ?a ?s]
  from a have ca: "calls (makeProgressiveChanges Finite length [] [?e1, ?e2] ?a ?s)
     = [PushUndoStop,
        PerformAsyncTextEdit ?e1 (jsDivide Finite (Finite (of_nat (length (textOf ?e1)))) (durationInSec Finite ?a)),
        PerformAsyncTextEdit ?e2 (jsDivide Finite (Finite (of_nat (length (textOf ?e2)))) (durationInSec Finite ?a))]"
    by simp
  from a da have ra: "\<forall>e. jsDivide Finite (Finite (of_nat (length (textOf e)))) (durationInSec Finite ?a)
               = (if length (textOf e) = 0 then Finite 0 else Finite (of_nat (length (textOf e)) / 2))"
    by simp
  from ra[THEN spec, of ?e1] w1 have "jsDivide Finite (Finite (of_nat (length (textOf ?e1)))) (durationInSec Finite ?a)
      = Finite (11 / 2)"
    by simp
  moreover from ra[THEN spec, of ?e2] w2 have "jsDivide Finite (Finite (of_nat (length (textOf ?e2)))) (durationInSec Finite ?a)
      = Finite 0"
    by simp
  ultimately have A: "calls (makeProgressiveChanges Finite length [] [?e1, ?e2] ?a ?s)
     = [PushUndoStop, PerformAsyncTextEdit ?e1 (Finite (11 / 2)), PerformAsyncTextEdit ?e2 (Finite 0)]"
    using ca by simp
  note z = progressive_rate[of Finite length "[]" "[?e1, ?e2]" ?z ?s]
  from z have cz: "calls (makeProgressiveChanges Finite length [] [?e1, ?e2] ?z ?s)
     = [PushUndoStop,
        PerformAsyncTextEdit ?e1 (jsDivide Finite (Finite (of_nat (length (textOf ?e1)))) (durationInSec Finite ?z)),
        PerformAsyncTextEdit ?e2 (jsDivide Finite (Finite (of_nat (length (textOf ?e2)))) (durationInSec Finite ?z))]"
    by simp
  from z have dz: "durationInSec Finite ?z = Finite 0" by simp
  with z have rz: "\<forall>e. jsDivide Finite (Finite (of_nat (length (textOf e)))) (durationInSec Finite ?z)
               = (if length (textOf e) = 0 then NaN else Infinity)"
    by simp
  from rz[THEN spec, of ?e1] w1 have "jsDivide Finite (Finite (of_nat (length (textOf ?e1)))) (durationInSec Finite ?z)
      = Infinity"
    by simp
  moreover from rz[THEN spec, of ?e2] w2 have "jsDivide Finite (Finite (of_nat (length (textOf ?e2)))) (durationInSec Finite ?z)
      = NaN"
    by simp
  ultimately have Z: "calls (makeProgressiveChanges Finite length [] [?e1, ?e2] ?z ?s)
     = [PushUndoStop, PerformAsyncTextEdit ?e1 Infinity, PerformAsyncTextEdit ?e2 NaN]"
    using cz by simp
  from A Z show ?thesis by simp
qed

text \<open>
  The claim as stated fails for the options \<open>{duration: 0}\<close> and an edit whose text has
  no words: the divisor \<open>durationInSec\<close> is 0 and the rate is \<open>0 / 0\<close>.
\<close>

theorem progressive_rate_zero_duration_counterexample:
  "durationInSec Finite \<lparr>duration = 0, token = None\<rparr> = Finite 0
   \<and> wordsPerSec Finite \<lparr>duration = 0, token = None\<rparr> 0 = NaN"
  by (simp add: wordsPerSec_def durationInSec_def jsDivide_def)

subsection \<open>C8: cancel\<close>

lemma cancel_nth:
  "i < length hs \<Longrightarrow>
   cancel hs ! i = (if getState (hs ! i) = Pending then (hs ! i)\<lparr>getState := Discarded\<rparr> else hs ! i)"
  by (simp add: cancel_def discardAll_def)

lemma length_cancel: "length (cancel hs) = length hs"
  by (simp add: cancel_def discardAll_def)

text \<open>
  C8. In each of the three strategies \<open>cancel\<close> keeps the hunks of the store in place,
  turns every hunk that is \<open>Pending\<close> into the same hunk in state \<open>Discarded\<close>, and
  leaves every hunk that is \<open>Accepted\<close> or \<open>Discarded\<close> as it is.
\<close>

theorem cancel_discards_pending:
  "length (pv_hunks (pv_cancel p)) = length (pv_hunks p)
   \<and> (\<forall>i<length (pv_hunks p). pv_hunks (pv_cancel p) ! i =
         (if getState (pv_hunks p ! i) = Pending then (pv_hunks p ! i)\<lparr>getState := Discarded\<rparr>
          else pv_hunks p ! i))
   \<and> length (lp_hunks (lp_cancel s)) = length (lp_hunks s)
   \<and> (\<forall>i<length (lp_hunks s). lp_hunks (lp_cancel s) ! i =
         (if getState (lp_hunks s ! i) = Pending then (lp_hunks s ! i)\<lparr>getState := Discarded\<rparr>
          else lp_hunks s ! i))
   \<and> length (lv_hunks (lv_cancel t)) = length (lv_hunks t)
   \<and> (\<forall>i<length (lv_hunks t). lv_hunks (lv_cancel t) ! i =
         (if getState (lv_hunks t ! i) = Pending then (lv_hunks t ! i)\<lparr>getState := Discarded\<rparr>
          else lv_hunks t ! i))"
  by (simp add: pv_cancel_def lp_cancel_def lv_cancel_def lv_resetDiff_def Let_def cancel_nth
      length_cancel)

text \<open>A pending, an accepted and a discarded hunk: only the first one changes.\<close>

theorem cancel_discards_pending_witness:
  "lp_hunks (lp_cancel \<lparr>lp_hunks =
       [\<lparr>getState = Pending, rangeN = \<lparr>startLineNumber = 1, endLineNumber = 2\<rparr>\<rparr>,
        \<lparr>getState = Accepted, rangeN = \<lparr>startLineNumber = 5, endLineNumber = 5\<rparr>\<rparr>,
        \<lparr>getState = Discarded, rangeN = \<lparr>startLineNumber = 8, endLineNumber = 9\<rparr>\<rparr>],
       lp_diffZonePool = 0, lp_thunks = BaseMethods, lp_fired = []\<rparr>) ! 0
     = \<lparr>getState = Discarded, rangeN = \<lparr>startLineNumber = 1, endLineNumber = 2\<rparr>\<rparr>
   \<and> lp_hunks (lp_cancel \<lparr>lp_hunks =
       [\<lparr>getState = Pending, rangeN = \<lparr>startLineNumber = 1, endLineNumber = 2\<rparr>\<rparr>,
        \<lparr>getState = Accepted, rangeN = \<lparr>startLineNumber = 5, endLineNumber = 5\<rparr>\<rparr>,
        \<lparr>getState = Discarded, rangeN = \<lparr>startLineNumber = 8, endLineNumber = 9\<rparr>\<rparr>],
       lp_diffZonePool = 0, lp_thunks = BaseMethods, lp_fired = []\<rparr>) ! 1
     = \<lparr>getState = Accepted, rangeN = \<lparr>startLineNumber = 5, endLineNumber = 5\<rparr>\<rparr>
   \<and> lp_hunks (lp_cancel \<lparr>lp_hunks =
       [\<lparr>getState = Pending, rangeN = \<lparr>startLineNumber = 1, endLineNumber = 2\<rparr>\<rparr>,
        \<lparr>getState = Accepted, rangeN = \<lparr>startLineNumber = 5, endLineNumber = 5\<rparr>\<rparr>,
        \<lparr>getState = Discarded, rangeN = \<lparr>startLineNumber = 8, endLineNumber = 9\<rparr>\<rparr>],
       lp_diffZonePool = 0, lp_thunks = BaseMethods, lp_fired = []\<rparr>) ! 2
     = \<lparr>getState = Discarded, rangeN = \<lparr>startLineNumber = 8, endLineNumber = 9\<rparr>\<rparr>"
proof -
  let ?hs = "[\<lparr>getState = Pending, rangeN = \<lparr>startLineNumber = 1, endLineNumber = 2\<rparr>\<rparr>,
        \<lparr>getState = Accepted, rangeN = \<lparr>startLineNumber = 5, endLineNumber = 5\<rparr>\<rparr>,
        \<lparr>getState = Discarded, rangeN = \<lparr>startLineNumber = 8, endLineNumber = 9\<rparr>\<rparr>]"
  let ?s = "\<lparr>lp_hunks = ?hs, lp_diffZonePool = 0, lp_thunks = BaseMethods, lp_fired = []\<rparr>"
  from cancel_discards_pending[of _ ?s]
  have n: "\<forall>i<3. lp_hunks (lp_cancel ?s) ! i =
         (if getState (?hs ! i) = Pending then (?hs ! i)\<lparr>getState := Discarded\<rparr> else ?hs ! i)"
    by simp
  from n have "lp_hunks (lp_cancel ?s) ! 0 = \<lparr>getState = Discarded, rangeN = \<lparr>startLineNumber = 1, endLineNumber = 2\<rparr>\<rparr>"
    and "lp_hunks (lp_cancel ?s) ! 1 = \<lparr>getState = Accepted, rangeN = \<lparr>startLineNumber = 5, endLineNumber = 5\<rparr>\<rparr>"
    and "lp_hunks (lp_cancel ?s) ! 2 = \<lparr>getState = Discarded, rangeN = \<lparr>startLineNumber = 8, endLineNumber = 9\<rparr>\<rparr>"
    by simp_all
  then show ?thesis by blast
qed

subsection \<open>C10: PreviewStrategy.apply\<close>

lemma length_fold_acceptChanges:
  "length (fold (\<lambda>i. acceptChanges tr i) is hs) = length hs"
  by (induction "is" arbitrary: hs) (simp_all add: acceptChanges_def length_setState)

lemma states_fold_acceptChanges:
  "map getState (fold (\<lambda>i. acceptChanges tr i) is hs) ! j =
     (if j \<in> set is \<and> j < length hs \<and> getState (hs ! j) = Pending then Accepted
      else map getState hs ! j)"
proof (induction "is" arbitrary: hs)
  case Nil
  then show ?case by simp
next
  case (Cons i "is")
  have s: "map getState (acceptChanges tr i hs) =
     (if i < length hs \<and> getState (hs ! i) = Pending then (map getState hs)[i := Accepted]
      else map getState hs)"
    by (simp add: acceptChanges_def states_setState)
  have l: "length (acceptChanges tr i hs) = length hs"
    by (simp add: acceptChanges_def length_setState)
  have n: "\<And>k. k < length hs \<Longrightarrow> getState (acceptChanges tr i hs ! k) = map getState (acceptChanges tr i hs) ! k"
    by (simp add: l)
  show ?case
  proof (cases "j < length hs")
    case True
    with Cons.IH[of "acceptChanges tr i hs"] s l n[OF True] show ?thesis
      by (auto simp: nth_list_update)
  next
    case False
    with Cons.IH[of "acceptChanges tr i hs"] s l show ?thesis
      by (auto simp: nth_list_update)
  qed
qed

lemma acceptAllInfo_none_pending:
  "h \<in> set (fst (acceptAllInfo movedText (hs, t0))) \<Longrightarrow> getState h \<noteq> Pending"
proof -
  assume "h \<in> set (fst (acceptAllInfo movedText (hs, t0)))"
  then obtain j where j: "j < length hs" "fold (\<lambda>i. acceptChanges [] i) [0..<length hs] hs ! j = h"
    by (auto simp: acceptAllInfo_def in_set_conv_nth length_fold_acceptChanges)
  from states_fold_acceptChanges[of "[]" "[0..<length hs]" hs j] j
  have "getState h = (if getState (hs ! j) = Pending then Accepted else getState (hs ! j))"
    by (simp add: length_fold_acceptChanges)
  then show ?thesis by (auto split: if_splits)
qed

text \<open>
  C10. If the editor has no model, or its content differs from the snapshot
  \<open>textModel0\<close>, \<open>apply\<close> leaves the content of the editor's model, the hunks and the
  snapshot as they are and calls nothing on the editor's model. If the content equals
  the snapshot, every hunk ends up not pending and the whole content of the editor's
  model is replaced, between two stack elements, by the content of the snapshot.
\<close>

theorem preview_apply_guarded:
  "(pv_editorModel s \<noteq> Some (pv_textModel0 s) \<longrightarrow>
       pv_editorModel (pv_apply movedText s) = pv_editorModel s
     \<and> pv_hunks (pv_apply movedText s) = pv_hunks s
     \<and> pv_textModel0 (pv_apply movedText s) = pv_textModel0 s
     \<and> pv_modelCalls (pv_apply movedText s) = pv_modelCalls s)
   \<and> (pv_editorModel s = Some (pv_textModel0 s) \<longrightarrow>
       pv_editorModel (pv_apply movedText s) = Some (pv_textModel0 (pv_apply movedText s))
     \<and> (\<forall>h\<in>set (pv_hunks (pv_apply movedText s)). getState h \<noteq> Pending)
     \<and> pv_modelCalls (pv_apply movedText s) = pv_modelCalls s
          @ [PushStackElement, ReplaceFullModelRange (pv_textModel0 (pv_apply movedText s)),
             PushStackElement])"
proof (intro conjI impI)
  assume d: "pv_editorModel s \<noteq> Some (pv_textModel0 s)"
  then show "pv_editorModel (pv_apply movedText s) = pv_editorModel s"
    and "pv_hunks (pv_apply movedText s) = pv_hunks s"
    and "pv_textModel0 (pv_apply movedText s) = pv_textModel0 s"
    and "pv_modelCalls (pv_apply movedText s) = pv_modelCalls s"
    by (auto simp: pv_apply_def Let_def split: option.splits)
next
  assume e: "pv_editorModel s = Some (pv_textModel0 s)"
  obtain hs t0 where a: "acceptAllInfo movedText (pv_hunks s, pv_textModel0 s) = (hs, t0)"
    by (cases "acceptAllInfo movedText (pv_hunks s, pv_textModel0 s)")
  from e a show "pv_editorModel (pv_apply movedText s) = Some (pv_textModel0 (pv_apply movedText s))"
    by (simp add: pv_apply_def Let_def split: option.splits)
  from e a show "pv_modelCalls (pv_apply movedText s) = pv_modelCalls s
          @ [PushStackElement, ReplaceFullModelRange (pv_textModel0 (pv_apply movedText s)),
             PushStackElement]"
    by (simp add: pv_apply_def Let_def split: option.splits)
  from e a have "pv_hunks (pv_apply movedText s) = hs"
    by (simp add: pv_apply_def Let_def split: option.splits)
  moreover have "\<forall>h\<in>set hs. getState h \<noteq> Pending"
    using acceptAllInfo_none_pending[of _ movedText "pv_hunks s" "pv_textModel0 s"] a by simp
  ultimately show "\<forall>h\<in>set (pv_hunks (pv_apply movedText s)). getState h \<noteq> Pending"
    by simp
qed

text \<open>
  An editor that still shows the snapshot gets the accepted text; an editor whose
  content has changed since is left alone with its pending hunk.
\<close>

theorem preview_apply_guarded_witness:
  "pv_editorModel (pv_apply ''abXd''
       \<lparr>pv_editorModel = Some ''abcd'', pv_textModel0 = ''abcd'',
        pv_hunks = [\<lparr>getState = Pending, rangeN = \<lparr>startLineNumber = 1, endLineNumber = 1\<rparr>\<rparr>],
        pv_modelCalls = [], pv_untitled = None\<rparr>) = Some ''abXd''
   \<and> pv_apply ''abXd''
       \<lparr>pv_editorModel = Some ''abcde'', pv_textModel0 = ''abcd'',
        pv_hunks = [\<lparr>getState = Pending, rangeN = \<lparr>startLineNumber = 1, endLineNumber = 1\<rparr>\<rparr>],
        pv_modelCalls = [], pv_untitled = None\<rparr>
     = \<lparr>pv_editorModel = Some ''abcde'', pv_textModel0 = ''abcd'',
        pv_hunks = [\<lparr>getState = Pending, rangeN = \<lparr>startLineNumber = 1, endLineNumber = 1\<rparr>\<rparr>],
        pv_modelCalls = [], pv_untitled = None\<rparr>"
proof -
  let ?hs = "[\<lparr>getState = Pending, rangeN = \<lparr>startLineNumber = 1, endLineNumber = 1\<rparr>\<rparr>]"
  let ?a = "\<lparr>pv_editorModel = Some ''abcd'', pv_textModel0 = ''abcd'', pv_hunks = ?hs,
             pv_modelCalls = [], pv_untitled = None\<rparr>"
  let ?b = "\<lparr>pv_editorModel = Some ''abcde'', pv_textModel0 = ''abcd'', pv_hunks = ?hs,
             pv_modelCalls = [], pv_untitled = None\<rparr>"
  have t: "pv_textModel0 (pv_apply ''abXd'' ?a) = ''abXd''"
    by (simp add: pv_apply_def acceptAllInfo_def Let_def)
  from preview_apply_guarded[of ?a "''abXd''"] t
  have a: "pv_editorModel (pv_apply ''abXd'' ?a) = Some ''abXd''" by simp
  from preview_apply_guarded[of ?b "''abXd''"]
  have "pv_editorModel (pv_apply ''abXd'' ?b) = Some ''abcde''"
    and "pv_hunks (pv_apply ''abXd'' ?b) = ?hs"
    and "pv_textModel0 (pv_apply ''abXd'' ?b) = ''abcd''"
    and "pv_modelCalls (pv_apply ''abXd'' ?b) = []"
    by simp_all
  moreover have "pv_untitled (pv_apply ''abXd'' ?b) = None"
    by (simp add: pv_apply_def Let_def)
  ultimately have "pv_apply ''abXd'' ?b = ?b"
    by (cases "pv_apply ''abXd'' ?b") simp
  with a show ?thesis by simp
qed

end
